theory Spec2Isabelle
  imports Complex_Main "HOL-Library.Word" "HOL-Library.Log_Nat"
begin

section \<open>Machine types\<close>

type_synonym u32 = "32 word"
type_synonym u64 = "64 word"

section \<open>SampleReducer: support/observation.go\<close>

text \<open>
  \<^verbatim>\<open>func ReduceObservation(scale uint64, th1 uint32, tl1 uint32, th2 uint32, tl2 uint32) uint64\<close>
  of package \<open>support\<close>. The conversions \<open>uint64(th1)\<close> are zero extensions (\<open>ucast\<close>);
  multiplication and addition are those of \<open>uint64\<close> and wrap modulo \<open>2 ^ 64\<close>.
\<close>

definition ReduceObservation :: "u64 \<Rightarrow> u32 \<Rightarrow> u32 \<Rightarrow> u32 \<Rightarrow> u32 \<Rightarrow> u64" where
  "ReduceObservation scale th1 tl1 th2 tl2 =
     (if th1 = th2 then ucast th1 * scale + ucast tl1
      else if tl1 < tl2 then ucast th2 * scale + ucast tl1
      else ucast th1 * scale + ucast tl1)"

section \<open>The microsecond clock: wspr/mtime.go\<close>

text \<open>
  Package \<open>wspr\<close> declares a \<open>ReduceObservation\<close> of its own, with two branches only;
  it is the one \<open>MicroTime\<close> calls. The name is suffixed to tell it from the one of
  package \<open>support\<close>.
\<close>

definition ReduceObservation_wspr :: "u64 \<Rightarrow> u32 \<Rightarrow> u32 \<Rightarrow> u32 \<Rightarrow> u32 \<Rightarrow> u64" where
  "ReduceObservation_wspr scale th1 tl1 th2 tl2 =
     (if th1 = th2 then ucast th1 * scale + ucast tl1
      else ucast th2 * scale + ucast tl2)"

text \<open>
  \<open>MicroTime\<close> reads \<open>TIMERAWH, TIMERAWL, TIMERAWH, TIMERAWL\<close> in this order; the four
  values read are the arguments of the model. \<open>1<<32\<close> is the scale.
\<close>

definition MicroTime :: "u32 \<Rightarrow> u32 \<Rightarrow> u32 \<Rightarrow> u32 \<Rightarrow> u64" where
  "MicroTime th1 tl1 th2 tl2 = ReduceObservation_wspr (push_bit 32 1) th1 tl1 th2 tl2"

section \<open>RationalApproximator, integer part: support/cf.go\<close>

text \<open>
  \<^verbatim>\<open>func continuedFraction(a, b, e, f, max_denominator uint64) (c, d uint64)\<close>.
  All arithmetic is that of \<open>uint64\<close>. The integer division \<open>a / b\<close> panics at run time
  when \<open>b\<close> is zero: the model returns \<open>None\<close> there. \<open>ax\<close> is \<open>a - term*b\<close> as in the
  source. The recursive call has the divisor \<open>ax\<close>, smaller than \<open>b\<close>, which is the
  termination argument.
\<close>

lemma u64_rem_less: "b \<noteq> 0 \<Longrightarrow> unat (a - a div b * b) < unat (b :: u64)"
proof -
  assume nz: "b \<noteq> 0"
  have "a - a div b * b = a mod b"
    by (simp add: minus_div_mult_eq_mod)
  moreover have "a mod b < b"
    using nz by (simp add: word_mod_less_divisor word_neq_0_conv)
  ultimately show ?thesis
    by (simp add: word_less_nat_alt)
qed

function continuedFraction :: "u64 \<Rightarrow> u64 \<Rightarrow> u64 \<Rightarrow> u64 \<Rightarrow> u64 \<Rightarrow> (u64 \<times> u64) option" where
  "continuedFraction a b e f max_denominator =
     (if b = 0 then None
      else let term = a div b;
               denom = f + term * e
           in if denom > max_denominator then Some (1, 0)
              else let ax = a - term * b
                   in if ax = 0 then Some (term, 1)
                      else (case continuedFraction b ax denom e max_denominator of
                              None \<Rightarrow> None
                            | Some (cx, dx) \<Rightarrow> Some (term * cx + dx, cx)))"
  by pat_completeness auto
termination
  by (relation "measure (\<lambda>(a, b, e, f, m). unat b)") (auto simp: u64_rem_less)

declare continuedFraction.simps [simp del]

section \<open>The float64 type of the source\<close>

text \<open>
  Go's \<open>float64\<close> is IEEE 754 binary64 with round to nearest, ties to even. A value is a
  finite rational (\<open>Fin 0\<close> is \<open>+0\<close>), the negative zero, an infinity or a NaN. Every
  operation computes the exact rational result and rounds it with \<open>f64_round\<close>: 53
  significant bits, exponents from \<open>-1022\<close> (below, the spacing of the subnormal numbers,
  \<open>2 powi -1074\<close>) up to \<open>1023\<close>, overflow to infinity (a rounded magnitude of
  \<open>2 ^ 1024\<close> or more: an exponent above 1023, or a significand rounded up to \<open>2 ^ 53\<close>
  at exponent 1023).
\<close>

datatype f64 = Fin rat | NegZero | PInf | NInf | NaN

definition floor_log2 :: "rat \<Rightarrow> int" where
  "floor_log2 m = (if 1 \<le> m then bitlen \<lfloor>m\<rfloor> - 1 else - bitlen (\<lceil>1 / m\<rceil> - 1))"

definition round_half_even :: "rat \<Rightarrow> int" where
  "round_half_even x =
     (let n = \<lfloor>x\<rfloor>; d = x - of_int n
      in if d < 1 / 2 then n else if 1 / 2 < d then n + 1 else if even n then n else n + 1)"

definition f64_zero :: "bool \<Rightarrow> f64" where
  "f64_zero s = (if s then NegZero else Fin 0)"

definition f64_inf :: "bool \<Rightarrow> f64" where
  "f64_inf s = (if s then NInf else PInf)"

text \<open>\<open>f64_round s m\<close> rounds the magnitude \<open>m \<ge> 0\<close> and attaches the sign \<open>s\<close> (\<open>True\<close>: negative).\<close>

definition f64_round :: "bool \<Rightarrow> rat \<Rightarrow> f64" where
  "f64_round s m =
     (if m = 0 then f64_zero s
      else let e = max (floor_log2 m) (- 1022);
               q = 2 powi (e - 52);
               n = round_half_even (m / q);
               r = of_int n * q
           in if 1023 < e \<or> (e = 1023 \<and> 2 ^ 53 \<le> n) then f64_inf s
              else if r = 0 then f64_zero s
              else Fin (if s then - r else r))"

definition f64_sign :: "f64 \<Rightarrow> bool" where
  "f64_sign x = (case x of Fin v \<Rightarrow> v < 0 | NegZero \<Rightarrow> True | PInf \<Rightarrow> False
                 | NInf \<Rightarrow> True | NaN \<Rightarrow> False)"

definition f64_fin :: "f64 \<Rightarrow> rat option" where
  "f64_fin x = (case x of Fin v \<Rightarrow> Some v | NegZero \<Rightarrow> Some 0 | _ \<Rightarrow> None)"

definition f64_mul :: "f64 \<Rightarrow> f64 \<Rightarrow> f64" where
  "f64_mul x y =
     (if x = NaN \<or> y = NaN then NaN
      else let s = (f64_sign x \<noteq> f64_sign y)
           in case (f64_fin x, f64_fin y) of
                (Some a, Some b) \<Rightarrow> f64_round s (\<bar>a\<bar> * \<bar>b\<bar>)
              | (Some a, None) \<Rightarrow> if a = 0 then NaN else f64_inf s
              | (None, Some b) \<Rightarrow> if b = 0 then NaN else f64_inf s
              | (None, None) \<Rightarrow> f64_inf s)"

definition f64_div :: "f64 \<Rightarrow> f64 \<Rightarrow> f64" where
  "f64_div x y =
     (if x = NaN \<or> y = NaN then NaN
      else let s = (f64_sign x \<noteq> f64_sign y)
           in case (f64_fin x, f64_fin y) of
                (Some a, Some b) \<Rightarrow>
                  if b = 0 then (if a = 0 then NaN else f64_inf s)
                  else f64_round s (\<bar>a\<bar> / \<bar>b\<bar>)
              | (Some a, None) \<Rightarrow> f64_zero s
              | (None, Some b) \<Rightarrow> f64_inf s
              | (None, None) \<Rightarrow> NaN)"

definition f64_add :: "f64 \<Rightarrow> f64 \<Rightarrow> f64" where
  "f64_add x y =
     (if x = NaN \<or> y = NaN then NaN
      else case (f64_fin x, f64_fin y) of
             (Some a, Some b) \<Rightarrow>
               if a + b = 0
               then (if a = 0 then f64_zero (f64_sign x \<and> f64_sign y) else Fin 0)
               else f64_round (a + b < 0) \<bar>a + b\<bar>
           | (Some a, None) \<Rightarrow> y
           | (None, Some b) \<Rightarrow> x
           | (None, None) \<Rightarrow> if x = y then x else NaN)"

definition f64_neg :: "f64 \<Rightarrow> f64" where
  "f64_neg x = (case x of Fin v \<Rightarrow> if v = 0 then NegZero else Fin (- v) | NegZero \<Rightarrow> Fin 0
                | PInf \<Rightarrow> NInf | NInf \<Rightarrow> PInf | NaN \<Rightarrow> NaN)"

definition f64_sub :: "f64 \<Rightarrow> f64 \<Rightarrow> f64" where
  "f64_sub x y = f64_add x (f64_neg y)"

text \<open>\<open>math.Abs\<close> clears the sign.\<close>

definition f64_abs :: "f64 \<Rightarrow> f64" where
  "f64_abs x = (if f64_sign x then f64_neg x else x)"

text \<open>Comparisons: false as soon as an operand is a NaN; the two zeros are equal.\<close>

definition f64_lt :: "f64 \<Rightarrow> f64 \<Rightarrow> bool" where
  "f64_lt x y =
     (x \<noteq> NaN \<and> y \<noteq> NaN \<and>
      (case (f64_fin x, f64_fin y) of
         (Some a, Some b) \<Rightarrow> a < b
       | (Some a, None) \<Rightarrow> y = PInf
       | (None, Some b) \<Rightarrow> x = NInf
       | (None, None) \<Rightarrow> x = NInf \<and> y = PInf))"

definition f64_le :: "f64 \<Rightarrow> f64 \<Rightarrow> bool" where
  "f64_le x y =
     (x \<noteq> NaN \<and> y \<noteq> NaN \<and>
      (case (f64_fin x, f64_fin y) of
         (Some a, Some b) \<Rightarrow> a \<le> b
       | (Some a, None) \<Rightarrow> y = PInf
       | (None, Some b) \<Rightarrow> x = NInf
       | (None, None) \<Rightarrow> x = NInf \<or> y = PInf))"

definition f64_gt :: "f64 \<Rightarrow> f64 \<Rightarrow> bool" where
  "f64_gt x y = f64_lt y x"

definition f64_ge :: "f64 \<Rightarrow> f64 \<Rightarrow> bool" where
  "f64_ge x y = f64_le y x"

definition f64_eq :: "f64 \<Rightarrow> f64 \<Rightarrow> bool" where
  "f64_eq x y = (f64_le x y \<and> f64_le y x)"

text \<open>A numeric constant of the source, converted to \<open>float64\<close>.\<close>

definition f64_const :: "rat \<Rightarrow> f64" where
  "f64_const v = f64_round (v < 0) \<bar>v\<bar>"

text \<open>The conversions \<open>float64(x)\<close> of an unsigned integer.\<close>

definition f64_of_u32 :: "u32 \<Rightarrow> f64" where
  "f64_of_u32 w = f64_round False (of_int (uint w))"

definition f64_of_u64 :: "u64 \<Rightarrow> f64" where
  "f64_of_u64 w = f64_round False (of_int (uint w))"

text \<open>
  The conversion \<open>uint64(x)\<close> of a \<open>float64\<close> discards the fraction. When the value
  does not fit (a NaN, an infinity, a value of \<open>2 ^ 64\<close> or more, or of \<open>-1\<close> or less)
  the conversion still succeeds, with a result that the language leaves to the
  implementation: the model takes it from the parameter \<open>cv\<close>, any function of the float.
\<close>

definition u64_of_f64 :: "(f64 \<Rightarrow> u64) \<Rightarrow> f64 \<Rightarrow> u64" where
  "u64_of_f64 cv x =
     (case f64_fin x of
        None \<Rightarrow> cv x
      | Some v \<Rightarrow>
          if - 1 < v \<and> v < 2 ^ 64 then word_of_int (if v < 0 then 0 else \<lfloor>v\<rfloor>)
          else cv x)"

section \<open>RationalApproximator, entry point: support/cf.go\<close>

text \<open>
  \<^verbatim>\<open>func NearestFraction(a, b, max_denominator uint64) (c, d uint64, eps float64)\<close>.
  \<open>None\<close> is the run-time panic of \<open>continuedFraction\<close> on a zero divisor.
\<close>

definition NearestFraction :: "u64 \<Rightarrow> u64 \<Rightarrow> u64 \<Rightarrow> (u64 \<times> u64 \<times> f64) option" where
  "NearestFraction a b max_denominator =
     (case continuedFraction a b 0 1 max_denominator of
        None \<Rightarrow> None
      | Some (c, d) \<Rightarrow>
          Some (c, d, f64_sub (f64_div (f64_of_u64 a) (f64_of_u64 b))
                              (f64_div (f64_of_u64 c) (f64_of_u64 d))))"

section \<open>SynthesizerConfigSolver: support/observation.go\<close>

text \<open>
  The struct \<open>Si5351Config\<close>. The fields carry the prefix \<open>cfg_\<close>, since \<open>f\<close>, \<open>r\<close> and
  the like are wanted as variable names.
\<close>

record Si5351Config =
  cfg_f0 :: f64
  cfg_pll :: f64
  cfg_f :: f64
  cfg_a0 :: u32
  cfg_b0 :: u32
  cfg_c0 :: u32
  cfg_a1 :: u32
  cfg_b1 :: u32
  cfg_c1 :: u32
  cfg_r :: u32
  cfg_eps :: f64

text \<open>The errors \<open>New\<close> returns, one constructor for each \<open>errors.New\<close> or \<open>fmt.Errorf\<close>, in source order.\<close>

datatype error =
    InvalidClockFrequency
  | OutputFrequencyTooHigh
  | PllOutOfRange
  | FeedbackRatioTooSmall
  | FeedbackRatioTooBig
  | MultiSynthRatioTooSmall
  | OutputDividerTooBig
  | FrequencyErrorOutOfRange

text \<open>\<^verbatim>\<open>func near(a float64, b float64, eps float64) bool { return math.Abs(a-b) <= eps }\<close>\<close>

definition near :: "f64 \<Rightarrow> f64 \<Rightarrow> f64 \<Rightarrow> bool" where
  "near a b eps = f64_le (f64_abs (f64_sub a b)) eps"

text \<open>
  The loop \<^verbatim>\<open>for z/float64(r.r) > 2048 && r.r <= 128 { r.r = r.r * 2 }\<close>, as a function of
  \<open>z\<close> and the current \<open>r.r\<close>; the result is the value of \<open>r.r\<close> when the loop is left.
  \<open>None\<close> is a loop that does not end (it would not from \<open>r.r = 0\<close> with an infinite \<open>z\<close>).
\<close>

partial_function (option) output_divider :: "f64 \<Rightarrow> u32 \<Rightarrow> u32 option" where
  "output_divider z r =
     (if f64_gt (f64_div z (f64_of_u32 r)) (f64_const 2048) \<and> r \<le> 128
      then output_divider z (r * 2)
      else Some r)"

declare output_divider.simps [code]

text \<open>
  The PLL frequency after lines 108 to 120 of the source: forced for \<open>f\<close> of 100 MHz and
  more, chosen when the hint is zero, the hint itself when it is in range.
\<close>

definition choose_pll :: "f64 \<Rightarrow> f64 \<Rightarrow> error + f64" where
  "choose_pll pll f =
     (if f64_gt f (f64_const 150000000) then Inr (f64_mul (f64_const 4) f)
      else if f64_ge f (f64_const 100000000) then Inr (f64_mul (f64_const 6) f)
      else if f64_eq pll (f64_const 0)
           then (if f64_lt f (f64_const 5000000) then Inr (f64_const 600000000)
                 else Inr (f64_const 800000000))
      else if f64_lt pll (f64_const 600000000) \<or> f64_gt pll (f64_const 900000000)
           then Inl PllOutOfRange
      else Inr pll)"

text \<open>
  The value \<open>f0 * (float64(a) + float64(b)/float64(c))\<close> that the source computes twice
  from \<open>(a0, b0, c0)\<close>, and the quotient \<open>float64(a) + float64(b)/float64(c)\<close>.
\<close>

definition divider_ratio :: "u32 \<Rightarrow> u32 \<Rightarrow> u32 \<Rightarrow> f64" where
  "divider_ratio a b c = f64_add (f64_of_u32 a) (f64_div (f64_of_u32 b) (f64_of_u32 c))"

text \<open>
  A call of \<open>NearestFraction\<close> as \<open>New\<close> makes it, on the integer \<open>n\<close> over \<open>10 ^ 12\<close> with
  the bound \<open>1<<20\<close>, followed by the three assignments \<open>uint32(b / c)\<close>, \<open>uint32(b % c)\<close>,
  \<open>uint32(c)\<close>. The integer division panics when \<open>c\<close> is zero.
\<close>

definition divider_triple :: "u64 \<Rightarrow> (u32 \<times> u32 \<times> u32) option" where
  "divider_triple n =
     (case NearestFraction n 1000000000000 (push_bit 20 1) of
        None \<Rightarrow> None
      | Some (b, c, _) \<Rightarrow>
          if c = 0 then None else Some (ucast (b div c), ucast (b mod c), ucast c))"

text \<open>
  The second half of \<open>New\<close>, lines 138 to 159, from the struct \<open>r\<close> as it stands after the
  first divider triple: the output multisynth ratio, the output divider, the second
  triple, the achieved frequency, the check of \<open>r.eps\<close> and its assignment.
\<close>

definition New_output ::
  "(f64 \<Rightarrow> u64) \<Rightarrow> Si5351Config \<Rightarrow> f64 \<Rightarrow> f64 \<Rightarrow> (error + Si5351Config) option" where
  "New_output cv r f0 f =
     (let z = f64_div (f64_mul f0 (divider_ratio (cfg_a0 r) (cfg_b0 r) (cfg_c0 r))) f
      in if \<not> near z (f64_const 4) (f64_const (1 / 1000000000)) \<and>
            \<not> near z (f64_const 6) (f64_const (1 / 1000000000)) \<and>
            f64_lt z (f64_const 8)
         then Some (Inl MultiSynthRatioTooSmall)
         else case output_divider z 1 of
           None \<Rightarrow> None
         | Some rr \<Rightarrow>
             let r = r\<lparr>cfg_r := rr\<rparr>
             in if cfg_r r > 128 then Some (Inl OutputDividerTooBig)
                else case divider_triple
                            (u64_of_f64 cv (f64_div (f64_mul z (f64_const 1000000000000))
                                                    (f64_of_u32 (cfg_r r)))) of
                  None \<Rightarrow> None
                | Some (a1, b1, c1) \<Rightarrow>
                    let r = r\<lparr>cfg_a1 := a1, cfg_b1 := b1, cfg_c1 := c1\<rparr>;
                        r = r\<lparr>cfg_f :=
                              f64_div
                                (f64_mul f0 (divider_ratio (cfg_a0 r) (cfg_b0 r) (cfg_c0 r)))
                                (divider_ratio (cfg_a1 r) (cfg_b1 r) (cfg_c1 r))\<rparr>
                    in if f64_gt (f64_div (f64_abs (cfg_eps r)) f)
                                 (f64_const (1 / 1000000000000))
                       then Some (Inl FrequencyErrorOutOfRange)
                       else Some (Inr (r\<lparr>cfg_eps := f64_sub f (cfg_f r)\<rparr>)))"

text \<open>
  \<^verbatim>\<open>func New(f0, pll, f float64) (Si5351Config, error)\<close>, with the parameter \<open>cv\<close> of the
  conversions \<open>uint64(x)\<close>. The result is \<open>Some (Inl e)\<close> for an error return,
  \<open>Some (Inr r)\<close> for a configuration returned with a nil error, and \<open>None\<close> where the
  source does not return: an integer division by zero, a loop that does not end. The
  struct starts from its zero value, so \<open>r.eps\<close> is \<open>+0\<close> until the last assignment.
\<close>

definition New :: "(f64 \<Rightarrow> u64) \<Rightarrow> f64 \<Rightarrow> f64 \<Rightarrow> f64 \<Rightarrow> (error + Si5351Config) option" where
  "New cv f0 pll f =
     (if f64_lt f0 (f64_const 10000000) \<or> f64_gt f0 (f64_const 27000000)
      then Some (Inl InvalidClockFrequency)
      else if f64_gt f (f64_const 200000000) then Some (Inl OutputFrequencyTooHigh)
      else case choose_pll pll f of
        Inl e \<Rightarrow> Some (Inl e)
      | Inr pll1 \<Rightarrow>
          let z = f64_div pll1 f0
          in if f64_lt z (f64_const 15) then Some (Inl FeedbackRatioTooSmall)
             else if f64_gt z (f64_const 90) then Some (Inl FeedbackRatioTooBig)
             else case divider_triple (u64_of_f64 cv (f64_mul z (f64_const 1000000000000))) of
               None \<Rightarrow> None
             | Some (a0, b0, c0) \<Rightarrow>
                 New_output cv
                   \<lparr>cfg_f0 = f0, cfg_pll = pll1, cfg_f = f,
                    cfg_a0 = a0, cfg_b0 = b0, cfg_c0 = c0,
                    cfg_a1 = 0, cfg_b1 = 0, cfg_c1 = 0, cfg_r = 0,
                    cfg_eps = Fin 0\<rparr> f0 f)"

section \<open>The continued fraction over the naturals\<close>

text \<open>
  Two functions for the proofs, not of the source. \<open>cf_nat\<close> is \<open>continuedFraction\<close> with
  natural numbers in place of \<open>uint64\<close>, so without wrap-around (and with \<open>(0, 0)\<close> for a
  zero divisor). \<open>cf_conv\<close> runs the same descent and carries, next to the denominators
  \<open>e\<close> and \<open>f\<close> of the last two convergents, their numerators \<open>g\<close> and \<open>h\<close>; it returns
  the convergent at which the descent stops.
\<close>

function cf_nat :: "nat \<Rightarrow> nat \<Rightarrow> nat \<Rightarrow> nat \<Rightarrow> nat \<Rightarrow> nat \<times> nat" where
  "cf_nat a b e f m =
     (if b = 0 then (0, 0)
      else let t = a div b; q = f + t * e
           in if m < q then (1, 0)
              else if a mod b = 0 then (t, 1)
              else (case cf_nat b (a mod b) q e m of (cx, dx) \<Rightarrow> (t * cx + dx, cx)))"
  by pat_completeness auto
termination
  by (relation "measure (\<lambda>(a, b, e, f, m). b)") auto

declare cf_nat.simps [simp del]

function cf_conv :: "nat \<Rightarrow> nat \<Rightarrow> nat \<Rightarrow> nat \<Rightarrow> nat \<Rightarrow> nat \<Rightarrow> nat \<Rightarrow> nat \<times> nat" where
  "cf_conv a b g h e f m =
     (if b = 0 then (0, 0)
      else let t = a div b; q = f + t * e; p = h + t * g
           in if m < q then (g, e)
              else if a mod b = 0 then (p, q)
              else cf_conv b (a mod b) p g q e m)"
  by pat_completeness auto
termination
  by (relation "measure (\<lambda>(a, b, g, h, e, f, m). b)") auto

declare cf_conv.simps [simp del]

section \<open>Ranges of float64 values\<close>


text \<open>
  The distance \<open>\<bar>a / b - c / d\<bar>\<close> of two fractions, as a rational number: the error of an
  approximation \<open>c / d\<close> of \<open>a / b\<close>.
\<close>

definition frac_error :: "nat \<Rightarrow> nat \<Rightarrow> int \<Rightarrow> nat \<Rightarrow> rat" where
  "frac_error a b c d = \<bar>of_nat a / of_nat b - of_int c / of_nat d\<bar>"

section \<open>Lemmas on the rounding of float64\<close>

text \<open>The exponent \<open>floor_log2 m\<close> brackets a positive \<open>m\<close> between two powers of two.\<close>

lemma pow2_less_imp: "(2::rat) powi a < 2 powi b \<Longrightarrow> a < b"
proof (rule ccontr)
  assume lt: "(2::rat) powi a < 2 powi b" and "\<not> a < b"
  then have "b \<le> a" by simp
  then have "(2::rat) powi b \<le> 2 powi a" by (rule power_int_increasing) simp
  with lt show False by simp
qed

lemma floor_log2_ge1:
  assumes "1 \<le> m"
  shows "2 powi (floor_log2 m) \<le> m \<and> m < 2 powi (floor_log2 m + 1)"
proof -
  let ?n = "\<lfloor>m\<rfloor>"
  have n: "0 < ?n" using assms by simp
  have bl: "1 \<le> bitlen ?n"
    using n bitlen_eq_zero_iff [of ?n] bitlen_nonneg [of ?n] by linarith
  from bitlen_bounds [OF n]
  have lo: "2 ^ nat (bitlen ?n - 1) \<le> ?n" and hi: "?n < 2 ^ nat (bitlen ?n)" by auto
  have e: "floor_log2 m = bitlen ?n - 1" using assms by (simp add: floor_log2_def)
  have "(2::rat) powi (bitlen ?n - 1) = of_int (2 ^ nat (bitlen ?n - 1))"
    using bl by (simp add: power_int_nonneg_exp)
  also have "\<dots> \<le> of_int ?n" using lo by (simp only: of_int_le_iff)
  also have "\<dots> \<le> m" by simp
  finally have A: "2 powi (floor_log2 m) \<le> m" by (simp add: e)
  have "?n + 1 \<le> 2 ^ nat (bitlen ?n)" using hi by simp
  then have "(of_int (?n + 1) :: rat) \<le> of_int (2 ^ nat (bitlen ?n))"
    by (simp only: of_int_le_iff)
  moreover have "m < of_int (?n + 1)" by linarith
  moreover have "(2::rat) powi (bitlen ?n - 1 + 1) = of_int (2 ^ nat (bitlen ?n))"
    using bl by (simp add: power_int_nonneg_exp)
  ultimately have B: "m < 2 powi (floor_log2 m + 1)" by (simp add: e)
  from A B show ?thesis ..
qed

lemma floor_log2_lt1:
  assumes "0 < m" "m < 1"
  shows "2 powi (floor_log2 m) \<le> m \<and> m < 2 powi (floor_log2 m + 1)"
proof -
  let ?c = "\<lceil>1 / m\<rceil>"
  have inv: "1 < 1 / m" using assms by simp
  have c2: "2 \<le> ?c" using inv by linarith
  have n: "0 < ?c - 1" using c2 by simp
  have bl: "1 \<le> bitlen (?c - 1)"
    using n bitlen_eq_zero_iff [of "?c - 1"] bitlen_nonneg [of "?c - 1"] by linarith
  from bitlen_bounds [OF n]
  have lo: "2 ^ nat (bitlen (?c - 1) - 1) \<le> ?c - 1" and hi: "?c - 1 < 2 ^ nat (bitlen (?c - 1))"
    by auto
  have e: "floor_log2 m = - bitlen (?c - 1)" using assms by (simp add: floor_log2_def)
  let ?k = "nat (bitlen (?c - 1))"
  have k: "int ?k = bitlen (?c - 1)" using bl by simp
  have "?c \<le> 2 ^ ?k" using hi by simp
  then have "(of_int ?c :: rat) \<le> of_int (2 ^ ?k)" by (simp only: of_int_le_iff)
  then have "(of_int ?c :: rat) \<le> 2 ^ ?k" by simp
  moreover have "1 / m \<le> of_int ?c" by (rule le_of_int_ceiling)
  ultimately have "1 / m \<le> 2 ^ ?k" by (rule order_trans [rotated])
  then have "1 \<le> 2 ^ ?k * m" using assms by (simp add: field_simps)
  then have "1 / 2 ^ ?k \<le> m" by (simp add: field_simps)
  moreover have "(2::rat) powi (- bitlen (?c - 1)) = 1 / 2 ^ ?k"
    using k by (metis power_int_minus_divide power_int_of_nat)
  ultimately have A: "2 powi (floor_log2 m) \<le> m" by (simp add: e)
  have "(of_int (2 ^ (?k - 1)) :: rat) \<le> of_int (?c - 1)"
    using lo bl by (simp only: of_int_le_iff) (simp add: nat_diff_distrib)
  then have "(2::rat) ^ (?k - 1) \<le> of_int (?c - 1)" by simp
  moreover have "of_int (?c - 1) < 1 / m" by linarith
  ultimately have "2 ^ (?k - 1) < 1 / m" by (rule le_less_trans)
  then have "m * 2 ^ (?k - 1) < 1" using assms by (simp add: field_simps)
  then have "m < 1 / 2 ^ (?k - 1)" by (simp add: field_simps)
  moreover have "(2::rat) powi (- bitlen (?c - 1) + 1) = 1 / 2 ^ (?k - 1)"
  proof -
    have "- bitlen (?c - 1) + 1 = - int (?k - 1)" using bl by simp
    then show ?thesis by (metis power_int_minus_divide power_int_of_nat)
  qed
  ultimately have B: "m < 2 powi (floor_log2 m + 1)" by (simp add: e)
  from A B show ?thesis ..
qed

lemma floor_log2_bounds:
  "0 < m \<Longrightarrow> 2 powi (floor_log2 m) \<le> m \<and> m < 2 powi (floor_log2 m + 1)"
  using floor_log2_ge1 [of m] floor_log2_lt1 [of m] by (cases "1 \<le> m") auto

lemma floor_log2_unique:
  assumes "2 powi e \<le> m" "m < 2 powi (e + 1)"
  shows "floor_log2 m = e"
proof -
  have "(0::rat) < 2 powi e" by simp
  then have m: "0 < m" using assms(1) by (rule less_le_trans)
  from floor_log2_bounds [OF m]
  have lo: "2 powi (floor_log2 m) \<le> m" and hi: "m < 2 powi (floor_log2 m + 1)" by auto
  have "(2::rat) powi e < 2 powi (floor_log2 m + 1)" using assms(1) hi by (rule le_less_trans)
  then have "e < floor_log2 m + 1" by (rule pow2_less_imp)
  moreover have "(2::rat) powi (floor_log2 m) < 2 powi (e + 1)"
    using lo assms(2) by (rule le_less_trans)
  then have "floor_log2 m < e + 1" by (rule pow2_less_imp)
  ultimately show ?thesis by simp
qed

text \<open>
  A magnitude \<open>n * 2 powi k\<close> with \<open>n\<close> below \<open>2 ^ 53\<close> and \<open>k\<close> in the exponent range
  is a float64: rounding leaves it as it is.
\<close>

lemma round_half_even_of_int: "round_half_even (of_int N) = N"
  by (simp add: round_half_even_def)

lemma f64_round_exact:
  assumes n: "0 < n" "n < 2 ^ 53" and k: "- 1074 \<le> k" "k \<le> 971"
  shows "f64_round s (of_int n * 2 powi k) =
         Fin (if s then - (of_int n * 2 powi k) else of_int n * 2 powi k)"
proof -
  define m :: rat where "m = of_int n * 2 powi k"
  have m: "0 < m" using n by (simp add: m_def)
  define e0 where "e0 = floor_log2 m"
  from floor_log2_bounds [OF m]
  have lo: "2 powi e0 \<le> m" and hi: "m < 2 powi (e0 + 1)" by (auto simp: e0_def)
  have "(of_int n :: rat) < of_int (2 ^ 53)" using n by (simp only: of_int_less_iff)
  then have "(of_int n :: rat) < 2 powi 53" by simp
  then have "m < 2 powi 53 * 2 powi k" unfolding m_def by (simp add: mult_strict_right_mono)
  also have "\<dots> = 2 powi (53 + k)" by (rule power_int_add [symmetric]) simp
  finally have mhi: "m < 2 powi (53 + k)" .
  have "(2::rat) powi e0 < 2 powi (53 + k)" using lo mhi by (rule le_less_trans)
  then have e0: "e0 \<le> 52 + k" using pow2_less_imp by fastforce
  define e where "e = max e0 (- 1022)"
  have ek: "e - 52 \<le> k" using e0 k by (simp add: e_def)
  have e1023: "e \<le> 1023" using e0 k by (simp add: e_def)
  define j where "j = nat (k - (e - 52))"
  define q :: rat where "q = 2 powi (e - 52)"
  have j: "k = (e - 52) + int j" using ek by (simp add: j_def)
  have "(2::rat) powi k = 2 powi (e - 52) * 2 powi (int j)"
    by (subst j) (rule power_int_add, simp)
  then have split: "(2::rat) powi k = q * 2 ^ j" by (simp add: q_def)
  have q0: "0 < q" by (simp add: q_def)
  have mq: "m = of_int (n * 2 ^ j) * q" by (simp add: m_def split)
  have quot: "m / q = of_int (n * 2 ^ j)"
    using q0 by (simp add: mq)
  have rnd: "round_half_even (m / q) = n * 2 ^ j"
    by (simp only: quot round_half_even_of_int)
  have noovf: "\<not> (e = 1023 \<and> 2 ^ 53 \<le> n * 2 ^ j)"
  proof
    assume a: "e = 1023 \<and> 2 ^ 53 \<le> n * 2 ^ j"
    then have ee: "e0 = 1023" by (simp add: e_def max_def split: if_splits)
    have "(of_int (2 ^ 53) :: rat) \<le> of_int (n * 2 ^ j)"
      using a by (simp only: of_int_le_iff)
    then have "(2::rat) powi 53 * q \<le> m" using q0 by (simp add: mq)
    moreover have "(2::rat) powi 53 * q = 2 powi (53 + (e - 52))"
      unfolding q_def by (rule power_int_add [symmetric]) simp
    ultimately have "(2::rat) powi (e0 + 1) \<le> m" using a ee by simp
    then show False using hi by simp
  qed
  have mne: "m \<noteq> 0" using m by simp
  have "f64_round s m = Fin (if s then - m else m)"
    unfolding f64_round_def Let_def e0_def [symmetric] e_def [symmetric] q_def [symmetric] rnd
    using mne e1023 noovf mq by auto
  then show ?thesis by (simp add: m_def)
qed

text \<open>The same for numerals, as rewrite rules that evaluate exact operations.\<close>

lemma bitlen_numeral: "bitlen (numeral k) = bitlen (numeral k div 2) + 1"
  by (subst compute_bitlen) simp

lemma bitlen_one: "bitlen 1 = 1"
  by (subst compute_bitlen) simp

lemma f64_round_zero: "f64_round s 0 = f64_zero s"
  by (simp add: f64_round_def)

lemma f64_round_numeral:
  "numeral a < (2::int) ^ 53 \<Longrightarrow>
   f64_round s (numeral a) = Fin (if s then - numeral a else numeral a)"
  using f64_round_exact [of "numeral a" 0 s] by simp

lemma f64_round_one: "f64_round s 1 = Fin (if s then - 1 else 1)"
  using f64_round_exact [of 1 0 s] by simp

lemma f64_round_dyadic:
  assumes "numeral a < (2::int) ^ 53"
    and "(numeral b :: int) = 2 ^ nat (bitlen (numeral b) - 1)"
    and "bitlen (numeral b) - 1 \<le> 1074"
  shows "f64_round s (numeral a / numeral b) =
         Fin (if s then - (numeral a / numeral b) else numeral a / numeral b)"
proof -
  define j where "j = nat (bitlen (numeral b) - 1)"
  have b: "(numeral b :: rat) = 2 ^ j"
  proof -
    have "(of_int (numeral b) :: rat) = of_int (2 ^ j)" using assms(2) by (simp only: j_def)
    then show ?thesis by simp
  qed
  have p: "(2::rat) powi (- int j) = 1 / 2 ^ j"
    by (metis power_int_minus_divide power_int_of_nat)
  have eq: "(numeral a / numeral b :: rat) = of_int (numeral a) * 2 powi (- int j)"
    by (simp only: p b) simp
  have j: "- 1074 \<le> - int j" using assms(3) by (simp add: j_def)
  have pos: "(0::int) < numeral a" by simp
  show ?thesis
    unfolding eq by (rule f64_round_exact [OF pos assms(1) j]) simp
qed

lemma f64_round_dyadic_one:
  assumes "(numeral b :: int) = 2 ^ nat (bitlen (numeral b) - 1)"
    and "bitlen (numeral b) - 1 \<le> 1074"
  shows "f64_round s (1 / numeral b) = Fin (if s then - (1 / numeral b) else 1 / numeral b)"
proof -
  define j where "j = nat (bitlen (numeral b) - 1)"
  have b: "(numeral b :: rat) = 2 ^ j"
  proof -
    have "(of_int (numeral b) :: rat) = of_int (2 ^ j)" using assms(1) by (simp only: j_def)
    then show ?thesis by simp
  qed
  have p: "(2::rat) powi (- int j) = 1 / 2 ^ j"
    by (metis power_int_minus_divide power_int_of_nat)
  have eq: "(1 / numeral b :: rat) = of_int 1 * 2 powi (- int j)"
    by (simp add: p b)
  have j: "- 1074 \<le> - int j" using assms(2) by (simp add: j_def)
  show ?thesis
    unfolding eq by (rule f64_round_exact [OF _ _ j]) simp_all
qed

lemma rat_floor_numeral: "\<lfloor>numeral a / numeral b :: rat\<rfloor> = numeral a div numeral b"
  using floor_divide_of_int_eq [of "numeral a" "numeral b", where ?'a = rat] by simp

lemmas f64_ops = f64_const_def f64_zero_def f64_inf_def f64_mul_def f64_div_def f64_add_def
  f64_sub_def f64_neg_def f64_abs_def f64_lt_def f64_le_def f64_gt_def f64_ge_def f64_eq_def
  f64_sign_def f64_fin_def f64_of_u32_def f64_of_u64_def u64_of_f64_def

lemmas f64_exact = f64_round_zero f64_round_numeral f64_round_one f64_round_dyadic
  f64_round_dyadic_one
  bitlen_numeral bitlen_one rat_floor_numeral

text \<open>The two constants of the source that are not floats: \<open>1e-12\<close> and \<open>1e-9\<close>.\<close>

lemma f64_const_1e12: "f64_const (1 / 1000000000000) = Fin (4951760157141521 / 2 ^ 92)"
  by (simp add: f64_const_def f64_round_def floor_log2_def round_half_even_def Let_def
      bitlen_numeral bitlen_one rat_floor_numeral)



lemma zero_eps_check: "\<not> f64_gt (f64_div (f64_abs (Fin 0)) f) (f64_const (1 / 1000000000000))"
  by (cases f) (auto simp add: f64_const_1e12 f64_gt_def f64_lt_def f64_div_def f64_abs_def
      f64_sign_def f64_fin_def f64_zero_def f64_inf_def f64_round_zero Let_def)

section \<open>Rounding is monotone\<close>







section \<open>Lemmas on New\<close>

text \<open>
  The path of \<open>New\<close> that returns a configuration, with every intermediate value named.
  The check of \<open>r.eps\<close> needs no premise: it reads the zero value of the field.
\<close>

lemma divider_triple_eq:
  assumes "continuedFraction n 1000000000000 0 1 (push_bit 20 1) = Some (nb, nc)" "nc \<noteq> 0"
  shows "divider_triple n = Some (ucast (nb div nc), ucast (nb mod nc), ucast nc)"
  using assms by (simp add: divider_triple_def NearestFraction_def)

lemma New_output_success:
  assumes "f64_div (f64_mul f0 (divider_ratio (cfg_a0 r) (cfg_b0 r) (cfg_c0 r))) f = z1"
    and "near z1 (f64_const 4) (f64_const (1 / 1000000000)) \<or>
         near z1 (f64_const 6) (f64_const (1 / 1000000000)) \<or> \<not> f64_lt z1 (f64_const 8)"
    and "output_divider z1 1 = Some rr" "\<not> rr > 128"
    and "u64_of_f64 cv (f64_div (f64_mul z1 (f64_const 1000000000000)) (f64_of_u32 rr)) = n1"
    and "divider_triple n1 = Some (a1, b1, c1)"
    and "cfg_eps r = Fin 0"
  shows "New_output cv r f0 f =
         Some (Inr (r\<lparr>cfg_r := rr, cfg_a1 := a1, cfg_b1 := b1, cfg_c1 := c1,
                         cfg_f := f64_div (f64_mul f0 (divider_ratio (cfg_a0 r) (cfg_b0 r) (cfg_c0 r)))
                                    (divider_ratio a1 b1 c1),
                         cfg_eps := f64_sub f (f64_div (f64_mul f0 (divider_ratio (cfg_a0 r) (cfg_b0 r) (cfg_c0 r)))
                                    (divider_ratio a1 b1 c1))\<rparr>))"
  unfolding New_output_def using assms zero_eps_check [of f]
  by (auto simp add: Let_def)

lemma New_success:
  assumes "\<not> f64_lt f0 (f64_const 10000000)" "\<not> f64_gt f0 (f64_const 27000000)"
    and "\<not> f64_gt f (f64_const 200000000)"
    and "choose_pll pll f = Inr pll1"
    and "f64_div pll1 f0 = z0"
    and "\<not> f64_lt z0 (f64_const 15)" "\<not> f64_gt z0 (f64_const 90)"
    and "u64_of_f64 cv (f64_mul z0 (f64_const 1000000000000)) = n0"
    and "continuedFraction n0 1000000000000 0 1 (push_bit 20 1) = Some (nb0, nc0)" "nc0 \<noteq> 0"
    and "ucast (nb0 div nc0) = a0" "ucast (nb0 mod nc0) = b0" "ucast nc0 = c0"
    and "divider_ratio a0 b0 c0 = r0"
    and "f64_div (f64_mul f0 r0) f = z1"
    and "near z1 (f64_const 4) (f64_const (1 / 1000000000)) \<or>
         near z1 (f64_const 6) (f64_const (1 / 1000000000)) \<or> \<not> f64_lt z1 (f64_const 8)"
    and "output_divider z1 1 = Some rr" "\<not> rr > 128"
    and "u64_of_f64 cv (f64_div (f64_mul z1 (f64_const 1000000000000)) (f64_of_u32 rr)) = n1"
    and "continuedFraction n1 1000000000000 0 1 (push_bit 20 1) = Some (nb1, nc1)" "nc1 \<noteq> 0"
    and "ucast (nb1 div nc1) = a1" "ucast (nb1 mod nc1) = b1" "ucast nc1 = c1"
    and "divider_ratio a1 b1 c1 = r1"
    and "f64_div (f64_mul f0 r0) r1 = fr"
    and "f64_sub f fr = ep"
  shows "New cv f0 pll f =
         Some (Inr \<lparr>cfg_f0 = f0, cfg_pll = pll1, cfg_f = fr,
                     cfg_a0 = a0, cfg_b0 = b0, cfg_c0 = c0,
                     cfg_a1 = a1, cfg_b1 = b1, cfg_c1 = c1,
                     cfg_r = rr, cfg_eps = ep\<rparr>)"
proof -
  have t0: "divider_triple n0 = Some (a0, b0, c0)"
    using divider_triple_eq [OF assms(9,10)] assms(11-13) by simp
  have t1: "divider_triple n1 = Some (a1, b1, c1)"
    using divider_triple_eq [OF assms(20,21)] assms(22-24) by simp
  let ?r = "\<lparr>cfg_f0 = f0, cfg_pll = pll1, cfg_f = f, cfg_a0 = a0, cfg_b0 = b0, cfg_c0 = c0,
             cfg_a1 = 0, cfg_b1 = 0, cfg_c1 = 0, cfg_r = 0, cfg_eps = Fin 0\<rparr>"
  have out: "New_output cv ?r f0 f =
         Some (Inr \<lparr>cfg_f0 = f0, cfg_pll = pll1, cfg_f = fr,
                     cfg_a0 = a0, cfg_b0 = b0, cfg_c0 = c0,
                     cfg_a1 = a1, cfg_b1 = b1, cfg_c1 = c1,
                     cfg_r = rr, cfg_eps = ep\<rparr>)"
    using New_output_success [of f0 ?r f z1 rr cv n1 a1 b1 c1] assms(14-19) assms(25-27) t1
    by simp
  show ?thesis
    unfolding New_def using assms(1-8) t0 out by (simp add: Let_def)
qed

text \<open>What a returned configuration tells about the path taken.\<close>

lemma divider_triple_D:
  assumes "divider_triple n = Some (a, b, c)"
  obtains nb nc where "continuedFraction n 1000000000000 0 1 (push_bit 20 1) = Some (nb, nc)"
    "nc \<noteq> 0" "a = ucast (nb div nc)" "b = ucast (nb mod nc)" "c = ucast nc"
  using assms unfolding divider_triple_def NearestFraction_def
  by (auto split: option.splits if_splits)



text \<open>The results of \<open>New\<close> and of its second half, case by case.\<close>

lemma New_output_ratio_too_small:
  assumes "z1 = f64_div (f64_mul f0 (divider_ratio (cfg_a0 r) (cfg_b0 r) (cfg_c0 r))) f"
    and "\<not> near z1 (f64_const 4) (f64_const (1 / 1000000000))"
    and "\<not> near z1 (f64_const 6) (f64_const (1 / 1000000000))"
    and "f64_lt z1 (f64_const 8)"
  shows "New_output cv r f0 f = Some (Inl MultiSynthRatioTooSmall)"
  using assms unfolding New_output_def by (simp add: Let_def)

lemma New_output_after_ratio:
  assumes "z1 = f64_div (f64_mul f0 (divider_ratio (cfg_a0 r) (cfg_b0 r) (cfg_c0 r))) f"
    and "near z1 (f64_const 4) (f64_const (1 / 1000000000)) \<or>
         near z1 (f64_const 6) (f64_const (1 / 1000000000)) \<or> \<not> f64_lt z1 (f64_const 8)"
  shows "New_output cv r f0 f =
     (case output_divider z1 1 of
           None \<Rightarrow> None
         | Some rr \<Rightarrow>
             if rr > 128 then Some (Inl OutputDividerTooBig)
             else case divider_triple
                         (u64_of_f64 cv (f64_div (f64_mul z1 (f64_const 1000000000000))
                                                 (f64_of_u32 rr))) of
                  None \<Rightarrow> None
                | Some (a1, b1, c1) \<Rightarrow>
                    if f64_gt (f64_div (f64_abs (cfg_eps r)) f) (f64_const (1 / 1000000000000))
                    then Some (Inl FrequencyErrorOutOfRange)
                    else Some (Inr (r\<lparr>cfg_r := rr, cfg_a1 := a1, cfg_b1 := b1, cfg_c1 := c1,
                       cfg_f := f64_div (f64_mul f0 (divider_ratio (cfg_a0 r) (cfg_b0 r) (cfg_c0 r)))
                               (divider_ratio a1 b1 c1),
                       cfg_eps := f64_sub f (f64_div (f64_mul f0 (divider_ratio (cfg_a0 r) (cfg_b0 r) (cfg_c0 r)))
                               (divider_ratio a1 b1 c1))\<rparr>)))"
proof -
  have c: "\<not> (\<not> near z1 (f64_const 4) (f64_const (1 / 1000000000)) \<and>
            \<not> near z1 (f64_const 6) (f64_const (1 / 1000000000)) \<and>
            f64_lt z1 (f64_const 8))" using assms(2) by blast
  show ?thesis
    unfolding New_output_def assms(1) [symmetric] Let_def if_not_P [OF c]
    by (simp split: option.split prod.split)
qed

lemma New_output_never_FrequencyErrorOutOfRange:
  assumes "cfg_eps r = Fin 0"
  shows "New_output cv r f0 f \<noteq> Some (Inl FrequencyErrorOutOfRange)"
proof -
  define z1 where "z1 = f64_div (f64_mul f0 (divider_ratio (cfg_a0 r) (cfg_b0 r) (cfg_c0 r))) f"
  show ?thesis
  proof (cases "near z1 (f64_const 4) (f64_const (1 / 1000000000)) \<or>
         near z1 (f64_const 6) (f64_const (1 / 1000000000)) \<or> \<not> f64_lt z1 (f64_const 8)")
    case True
    show ?thesis
      unfolding New_output_after_ratio [OF z1_def True]
      using zero_eps_check [of f] assms
      by (simp split: option.split prod.split)
  next
    case False
    then have "New_output cv r f0 f = Some (Inl MultiSynthRatioTooSmall)"
      using New_output_ratio_too_small [OF z1_def] by blast
    then show ?thesis by simp
  qed
qed

lemma New_reject_clock:
  assumes "f64_lt f0 (f64_const 10000000) \<or> f64_gt f0 (f64_const 27000000)"
  shows "New cv f0 pll f = Some (Inl InvalidClockFrequency)"
  using assms unfolding New_def by simp

lemma New_reject_output:
  assumes "\<not> f64_lt f0 (f64_const 10000000)" "\<not> f64_gt f0 (f64_const 27000000)"
    and "f64_gt f (f64_const 200000000)"
  shows "New cv f0 pll f = Some (Inl OutputFrequencyTooHigh)"
  using assms unfolding New_def by simp

lemma New_reject_pll:
  assumes "\<not> f64_lt f0 (f64_const 10000000)" "\<not> f64_gt f0 (f64_const 27000000)"
    and "\<not> f64_gt f (f64_const 200000000)"
    and "choose_pll pll f = Inl e"
  shows "New cv f0 pll f = Some (Inl e)"
  using assms unfolding New_def by simp

lemma New_reject_ratio:
  assumes "\<not> f64_lt f0 (f64_const 10000000)" "\<not> f64_gt f0 (f64_const 27000000)"
    and "\<not> f64_gt f (f64_const 200000000)"
    and "choose_pll pll f = Inr pll1"
    and "f64_lt (f64_div pll1 f0) (f64_const 15) \<or> f64_gt (f64_div pll1 f0) (f64_const 90)"
  shows "New cv f0 pll f = Some (Inl FeedbackRatioTooSmall) \<or>
         New cv f0 pll f = Some (Inl FeedbackRatioTooBig)"
  using assms unfolding New_def by (auto simp add: Let_def)

lemma New_after_checks:
  assumes "\<not> f64_lt f0 (f64_const 10000000)" "\<not> f64_gt f0 (f64_const 27000000)"
    and "\<not> f64_gt f (f64_const 200000000)"
    and "choose_pll pll f = Inr pll1"
    and "\<not> f64_lt (f64_div pll1 f0) (f64_const 15)"
    and "\<not> f64_gt (f64_div pll1 f0) (f64_const 90)"
  shows "New cv f0 pll f =
     (case divider_triple
             (u64_of_f64 cv (f64_mul (f64_div pll1 f0) (f64_const 1000000000000))) of
        None \<Rightarrow> None
      | Some (a0, b0, c0) \<Rightarrow>
          New_output cv
            \<lparr>cfg_f0 = f0, cfg_pll = pll1, cfg_f = f, cfg_a0 = a0, cfg_b0 = b0, cfg_c0 = c0,
             cfg_a1 = 0, cfg_b1 = 0, cfg_c1 = 0, cfg_r = 0, cfg_eps = Fin 0\<rparr> f0 f)"
  using assms unfolding New_def by (simp add: Let_def)

lemma New_never_FrequencyErrorOutOfRange:
  "New cv f0 pll f \<noteq> Some (Inl FrequencyErrorOutOfRange)"
proof (cases "f64_lt f0 (f64_const 10000000) \<or> f64_gt f0 (f64_const 27000000)")
  case True
  then show ?thesis by (simp add: New_reject_clock)
next
  case c1: False
  show ?thesis
  proof (cases "f64_gt f (f64_const 200000000)")
    case True
    with c1 show ?thesis by (simp add: New_reject_output)
  next
    case c2: False
    show ?thesis
    proof (cases "choose_pll pll f")
      case (Inl e)
      then have "e = PllOutOfRange"
        by (auto simp add: choose_pll_def split: if_splits)
      with c1 c2 Inl show ?thesis by (simp add: New_reject_pll)
    next
      case (Inr pll1)
      show ?thesis
      proof (cases "f64_lt (f64_div pll1 f0) (f64_const 15) \<or>
                    f64_gt (f64_div pll1 f0) (f64_const 90)")
        case True
        with c1 c2 Inr New_reject_ratio [of f0 f pll pll1 cv] show ?thesis by auto
      next
        case False
        with c1 c2 Inr have "New cv f0 pll f =
          (case divider_triple
                  (u64_of_f64 cv (f64_mul (f64_div pll1 f0) (f64_const 1000000000000))) of
            None \<Rightarrow> None
          | Some (a0, b0, c0) \<Rightarrow>
               New_output cv
                 \<lparr>cfg_f0 = f0, cfg_pll = pll1, cfg_f = f, cfg_a0 = a0, cfg_b0 = b0, cfg_c0 = c0,
                  cfg_a1 = 0, cfg_b1 = 0, cfg_c1 = 0, cfg_r = 0, cfg_eps = Fin 0\<rparr> f0 f)"
          by (intro New_after_checks) auto
        then show ?thesis
          by (simp add: New_output_never_FrequencyErrorOutOfRange split: option.split prod.split)
      qed
    qed
  qed
qed

section \<open>Order facts on float64\<close>


lemma f64_mul_NaN_left: "f64_mul NaN y = NaN"
  by (simp add: f64_mul_def)



section \<open>New at some inputs\<close>

lemmas f64_ev = f64_ops f64_exact

lemma rat_floor_one_over: "\<lfloor>1 / numeral b :: rat\<rfloor> = 1 div numeral b"
  using floor_divide_of_int_eq [of 1 "numeral b", where ?'a = rat] by simp

lemma rat_ceiling_numeral:
  "\<lceil>numeral a / numeral b :: rat\<rceil> = - (- numeral a div numeral b)"
  using ceiling_divide_eq_div [of "numeral a" "numeral b", where ?'a = rat] by simp

lemmas f64_round_ev = f64_round_def floor_log2_def round_half_even_def Let_def
  bitlen_numeral bitlen_one rat_floor_numeral rat_floor_one_over rat_ceiling_numeral


text \<open>\<open>New(25e6, 0, 100000)\<close>: the output divider \<open>r\<close> is 4.\<close>

lemma New_at_100kHz:
  "New cv (Fin 25000000) (Fin 0) (Fin 100000) =
   Some (Inr \<lparr>cfg_f0 = Fin 25000000, cfg_pll = Fin 600000000, cfg_f = Fin 400000,
               cfg_a0 = 24, cfg_b0 = 0, cfg_c0 = 1,
               cfg_a1 = 1500, cfg_b1 = 0, cfg_c1 = 1,
               cfg_r = 4, cfg_eps = Fin (- 300000)\<rparr>)"
proof -
  have cp: "choose_pll (Fin 0) (Fin 100000) = Inr (Fin 600000000)"
    by (simp add: choose_pll_def f64_ev)
  have z0: "f64_div (Fin 600000000) (Fin 25000000) = Fin 24"
    by (simp add: f64_ev)
  have n0: "u64_of_f64 cv (f64_mul (Fin 24) (f64_const 1000000000000)) = 24000000000000"
    by (simp add: f64_ev)
  have cf0: "continuedFraction 24000000000000 1000000000000 0 1 (push_bit 20 1) = Some (24, 1)"
    by (simp add: continuedFraction.simps)
  have dr0: "divider_ratio 24 0 1 = Fin 24"
    by (simp add: divider_ratio_def f64_ev)
  have z1: "f64_div (f64_mul (Fin 25000000) (Fin 24)) (Fin 100000) = Fin 6000"
    by (simp add: f64_ev)
  have od: "output_divider (Fin 6000) 1 = Some 4"
    by (simp add: output_divider.simps f64_ev)
  have n1: "u64_of_f64 cv (f64_div (f64_mul (Fin 6000) (f64_const 1000000000000)) (f64_of_u32 4)) =
        1500000000000000"
    by (simp add: f64_ev)
  have cf1: "continuedFraction 1500000000000000 1000000000000 0 1 (push_bit 20 1) = Some (1500, 1)"
    by (simp add: continuedFraction.simps)
  have dr1: "divider_ratio 1500 0 1 = Fin 1500"
    by (simp add: divider_ratio_def f64_ev)
  have fr: "f64_div (f64_mul (Fin 25000000) (Fin 24)) (Fin 1500) = Fin 400000"
    by (simp add: f64_ev)
  have ep: "f64_sub (Fin 100000) (Fin 400000) = Fin (- 300000)"
    by (simp add: f64_ev)
  have z1_ok: "\<not> f64_lt (Fin 6000) (f64_const 8)"
    by (simp add: f64_ev)
  show ?thesis
    by (rule New_success [OF _ _ _ cp z0 _ _ n0 cf0 _ _ _ _ dr0 z1 _ od _ n1 cf1 _ _ _ _ dr1 fr ep])
       (simp_all add: f64_ev z1_ok)
qed

text \<open>\<open>New(25e6, 600000023.84185791015625, 75000002.98023223876953125)\<close>: the feedback ratio is \<open>24 + 1 / 2 ^ 20\<close>.\<close>

lemma New_at_c0_max:
  "New cv (Fin 25000000) (Fin (9830400390625 / 16384)) (Fin (9830400390625 / 131072)) =
   Some (Inr \<lparr>cfg_f0 = Fin 25000000, cfg_pll = Fin (9830400390625 / 16384), cfg_f = Fin (9830400390625 / 131072),
               cfg_a0 = 24, cfg_b0 = 1, cfg_c0 = 1048576,
               cfg_a1 = 8, cfg_b1 = 0, cfg_c1 = 1,
               cfg_r = 1, cfg_eps = Fin 0\<rparr>)"
proof -
  have cp: "choose_pll (Fin (9830400390625 / 16384)) (Fin (9830400390625 / 131072)) = Inr (Fin (9830400390625 / 16384))"
    by (simp add: choose_pll_def f64_ev)
  have z0: "f64_div (Fin (9830400390625 / 16384)) (Fin 25000000) = Fin (25165825 / 1048576)"
    by (simp add: f64_ev)
  have n0: "u64_of_f64 cv (f64_mul (Fin (25165825 / 1048576)) (f64_const 1000000000000)) = 24000000953674"
    by (simp add: f64_ev)
  have cf0: "continuedFraction 24000000953674 1000000000000 0 1 (push_bit 20 1) = Some (25165825, 1048576)"
    by (simp add: continuedFraction.simps)
  have dr0: "divider_ratio 24 1 1048576 = Fin (25165825 / 1048576)"
    by (simp add: divider_ratio_def f64_ev)
  have z1: "f64_div (f64_mul (Fin 25000000) (Fin (25165825 / 1048576))) (Fin (9830400390625 / 131072)) = Fin 8"
    by (simp add: f64_ev)
  have od: "output_divider (Fin 8) 1 = Some 1"
    by (simp add: output_divider.simps f64_ev)
  have n1: "u64_of_f64 cv (f64_div (f64_mul (Fin 8) (f64_const 1000000000000)) (f64_of_u32 1)) =
        8000000000000"
    by (simp add: f64_ev)
  have cf1: "continuedFraction 8000000000000 1000000000000 0 1 (push_bit 20 1) = Some (8, 1)"
    by (simp add: continuedFraction.simps)
  have dr1: "divider_ratio 8 0 1 = Fin 8"
    by (simp add: divider_ratio_def f64_ev)
  have fr: "f64_div (f64_mul (Fin 25000000) (Fin (25165825 / 1048576))) (Fin 8) = Fin (9830400390625 / 131072)"
    by (simp add: f64_ev)
  have ep: "f64_sub (Fin (9830400390625 / 131072)) (Fin (9830400390625 / 131072)) = Fin 0"
    by (simp add: f64_ev)
  have z1_ok: "\<not> f64_lt (Fin 8) (f64_const 8)"
    by (simp add: f64_ev)
  show ?thesis
    by (rule New_success [OF _ _ _ cp z0 _ _ n0 cf0 _ _ _ _ dr0 z1 _ od _ n1 cf1 _ _ _ _ dr1 fr ep])
       (simp_all add: f64_ev z1_ok)
qed

text \<open>\<open>New(25e6, 0, 99999999)\<close>: the multisynth ratio is rounded to 8.\<close>

lemma New_at_99999999Hz:
  "New cv (Fin 25000000) (Fin 0) (Fin 99999999) =
   Some (Inr \<lparr>cfg_f0 = Fin 25000000, cfg_pll = Fin 800000000, cfg_f = Fin 100000000,
               cfg_a0 = 32, cfg_b0 = 0, cfg_c0 = 1,
               cfg_a1 = 8, cfg_b1 = 0, cfg_c1 = 1,
               cfg_r = 1, cfg_eps = Fin (- 1)\<rparr>)"
proof -
  have cp: "choose_pll (Fin 0) (Fin 99999999) = Inr (Fin 800000000)"
    by (simp add: choose_pll_def f64_ev)
  have z0: "f64_div (Fin 800000000) (Fin 25000000) = Fin 32"
    by (simp add: f64_ev)
  have n0: "u64_of_f64 cv (f64_mul (Fin 32) (f64_const 1000000000000)) = 32000000000000"
    by (simp add: f64_ev)
  have cf0: "continuedFraction 32000000000000 1000000000000 0 1 (push_bit 20 1) = Some (32, 1)"
    by (simp add: continuedFraction.simps)
  have dr0: "divider_ratio 32 0 1 = Fin 32"
    by (simp add: divider_ratio_def f64_ev)
  have z1: "f64_div (f64_mul (Fin 25000000) (Fin 32)) (Fin 99999999) = Fin (4503599672406493 / 562949953421312)"
    by (simp add: f64_ops f64_round_ev)
  have od: "output_divider (Fin (4503599672406493 / 562949953421312)) 1 = Some 1"
    by (simp add: output_divider.simps f64_ev)
  have n1: "u64_of_f64 cv (f64_div (f64_mul (Fin (4503599672406493 / 562949953421312)) (f64_const 1000000000000)) (f64_of_u32 1)) =
        8000000080000"
    by (simp add: f64_ops f64_round_ev)
  have cf1: "continuedFraction 8000000080000 1000000000000 0 1 (push_bit 20 1) = Some (8, 1)"
    by (simp add: continuedFraction.simps)
  have dr1: "divider_ratio 8 0 1 = Fin 8"
    by (simp add: divider_ratio_def f64_ev)
  have fr: "f64_div (f64_mul (Fin 25000000) (Fin 32)) (Fin 8) = Fin 100000000"
    by (simp add: f64_ev)
  have ep: "f64_sub (Fin 99999999) (Fin 100000000) = Fin (- 1)"
    by (simp add: f64_ev)
  have z1_ok: "\<not> f64_lt (Fin (4503599672406493 / 562949953421312)) (f64_const 8)"
    by (simp add: f64_ev)
  show ?thesis
    by (rule New_success [OF _ _ _ cp z0 _ _ n0 cf0 _ _ _ _ dr0 z1 _ od _ n1 cf1 _ _ _ _ dr1 fr ep])
       (simp_all add: f64_ev z1_ok)
qed


section \<open>Lemmas on continuedFraction\<close>

text \<open>
  Started from accumulators with \<open>e * a + f * b\<close> below \<open>2 ^ 64\<close> (as \<open>NearestFraction\<close>
  does, with \<open>e = 0\<close> and \<open>f = 1\<close>), no operation of \<open>continuedFraction\<close> wraps around:
  its result is the one of \<open>cf_nat\<close>.
\<close>

lemma cf_nat_bounds:
  "0 < b \<Longrightarrow> fst (cf_nat a b e f m) \<le> max a 1 \<and> snd (cf_nat a b e f m) \<le> b"
proof (induction a b e f m rule: cf_nat.induct)
  case (1 a b e f m)
  show ?case
  proof (cases "m < f + a div b * e")
    case True
    then show ?thesis using 1(2) by (simp add: cf_nat.simps [of a b])
  next
    case q: False
    show ?thesis
    proof (cases "a mod b = 0")
      case True
      moreover have "a div b \<le> max a 1" by (simp add: le_max_iff_disj)
      ultimately show ?thesis using 1(2) q by (simp add: cf_nat.simps [of a b])
    next
      case False
      then have pos: "0 < a mod b" by simp
      obtain cx dx where r: "cf_nat b (a mod b) (f + a div b * e) e m = (cx, dx)"
        by (cases "cf_nat b (a mod b) (f + a div b * e) e m")
      have mb: "max b 1 = b" using 1(2) by simp
      from "1.IH" [OF _ refl refl q False pos] 1(2) r
      have cx: "cx \<le> b" and dx: "dx \<le> a mod b" by (simp_all add: mb)
      have "a div b * cx \<le> a div b * b" using cx by simp
      then have "a div b * cx + dx \<le> a div b * b + a mod b"
        using dx by (rule add_mono)
      also have "\<dots> = a" by (rule div_mult_mod_eq)
      finally have "a div b * cx + dx \<le> a" .
      then show ?thesis
        using 1(2) q False r cx by (simp add: cf_nat.simps [of a b] max_def)
    qed
  qed
qed

lemma continuedFraction_cf_nat:
  "b \<noteq> 0 \<Longrightarrow> unat e * unat a + unat f * unat b < 2 ^ 64 \<Longrightarrow>
   continuedFraction a b e f m =
     Some (of_nat (fst (cf_nat (unat a) (unat b) (unat e) (unat f) (unat m))),
           of_nat (snd (cf_nat (unat a) (unat b) (unat e) (unat f) (unat m))))"
proof (induction a b e f m rule: continuedFraction.induct)
  case (1 a b e f m)
  let ?A = "unat a" and ?B = "unat b" and ?E = "unat e" and ?F = "unat f" and ?M = "unat m"
  have B: "0 < ?B" using 1(2) by (simp add: unat_gt_0)
  have inv: "?E * ?A + ?F * ?B < 2 ^ 64" by (rule 1(3))
  have t: "unat (a div b) = ?A div ?B" by (simp add: unat_div)
  have "(?A div ?B) * ?E * 1 \<le> (?A div ?B) * ?E * ?B"
    using B by (intro mult_le_mono2) simp
  also have "\<dots> = ?E * ((?A div ?B) * ?B)" by (simp add: ac_simps)
  also have "\<dots> \<le> ?E * ?A" by (intro mult_le_mono2) simp
  finally have te_le: "(?A div ?B) * ?E \<le> ?E * ?A" by simp
  have "(?A div ?B) * ?E < 2 ^ 64" using te_le inv by linarith
  then have "unat (a div b) * unat e < 2 ^ LENGTH(64)" by (simp add: t)
  then have te: "unat (a div b * e) = (?A div ?B) * ?E"
    using unat_mult_lem [of "a div b" e] t by simp
  have "(?F + (?A div ?B) * ?E) * 1 \<le> (?F + (?A div ?B) * ?E) * ?B"
    using B by (intro mult_le_mono2) simp
  also have "\<dots> = ?F * ?B + ?E * ((?A div ?B) * ?B)" by (simp add: algebra_simps)
  also have "\<dots> \<le> ?F * ?B + ?E * ?A" by (intro add_mono mult_le_mono2) simp_all
  finally have q_le: "?F + (?A div ?B) * ?E \<le> ?F * ?B + ?E * ?A" by simp
  have "?F + (?A div ?B) * ?E < 2 ^ 64" using q_le inv by linarith
  then have "unat f + unat (a div b * e) < 2 ^ LENGTH(64)" by (simp add: te)
  then have q: "unat (f + a div b * e) = ?F + (?A div ?B) * ?E"
    using unat_add_lem [of f "a div b * e"] te by simp
  have cmp: "(f + a div b * e > m) = (?M < ?F + (?A div ?B) * ?E)"
    by (simp add: word_less_nat_alt q)
  have axw: "a - a div b * b = a mod b" by (simp add: minus_div_mult_eq_mod)
  have ax: "unat (a - a div b * b) = ?A mod ?B" by (simp add: axw unat_mod)
  have ax0: "(a - a div b * b = 0) = (?A mod ?B = 0)"
    using ax by (metis unat_eq_0)
  have tw: "of_nat (?A div ?B) = a div b" by (simp flip: t)
  show ?case
  proof (cases "?M < ?F + (?A div ?B) * ?E")
    case True
    then have "f + a div b * e > m" using cmp by simp
    then have L: "continuedFraction a b e f m = Some (1, 0)"
      using 1(2) by (simp add: continuedFraction.simps [of a b])
    have R: "cf_nat ?A ?B ?E ?F ?M = (1, 0)"
      using True B by (simp add: cf_nat.simps [of ?A ?B])
    show ?thesis by (simp add: L R)
  next
    case nq: False
    then have nq': "\<not> f + a div b * e > m" using cmp by simp
    show ?thesis
    proof (cases "?A mod ?B = 0")
      case True
      then have "a - a div b * b = 0" using ax0 by simp
      then have L: "continuedFraction a b e f m = Some (a div b, 1)"
        using 1(2) nq' by (simp add: continuedFraction.simps [of a b])
      have R: "cf_nat ?A ?B ?E ?F ?M = (?A div ?B, 1)"
        using True nq B by (simp add: cf_nat.simps [of ?A ?B])
      show ?thesis by (simp add: L R tw)
    next
      case False
      have nz: "a - a div b * b \<noteq> 0" using False ax0 by simp
      have inv': "unat (f + a div b * e) * unat b + unat e * unat (a - a div b * b) < 2 ^ 64"
      proof -
        define t where "t = ?A div ?B"
        define r where "r = ?A mod ?B"
        have A: "?A = t * ?B + r" by (simp add: t_def r_def)
        have "(?F + t * ?E) * ?B + ?E * r = ?E * (t * ?B + r) + ?F * ?B"
          by (simp add: algebra_simps)
        also have "\<dots> = ?E * ?A + ?F * ?B" by (simp only: A [symmetric])
        finally have "(?F + t * ?E) * ?B + ?E * r < 2 ^ 64"
          using inv by linarith
        then show ?thesis by (simp only: q ax t_def r_def)
      qed
      obtain cx dx where r: "cf_nat ?B (?A mod ?B) (?F + (?A div ?B) * ?E) ?E ?M = (cx, dx)"
        by (cases "cf_nat ?B (?A mod ?B) (?F + (?A div ?B) * ?E) ?E ?M")
      have IH: "continuedFraction b (a - a div b * b) (f + a div b * e) e m =
                Some (of_nat cx, of_nat dx)"
        using "1.IH" [OF 1(2) refl refl nq' refl nz nz inv'] by (simp add: q ax r)
      have L: "continuedFraction a b e f m = Some (a div b * of_nat cx + of_nat dx, of_nat cx)"
        using 1(2) nq' nz IH by (simp add: continuedFraction.simps [of a b])
      have R: "cf_nat ?A ?B ?E ?F ?M = ((?A div ?B) * cx + dx, cx)"
        using False nq B r by (simp add: cf_nat.simps [of ?A ?B])
      show ?thesis by (simp add: L R tw)
    qed
  qed
qed

lemma continuedFraction_total:
  "b \<noteq> 0 \<Longrightarrow> \<exists>c d. continuedFraction a b e f m = Some (c, d)"
proof (induction a b e f m rule: continuedFraction.induct)
  case (1 a b e f m)
  show ?case
  proof (cases "f + a div b * e > m")
    case True
    then show ?thesis using 1(2) by (simp add: continuedFraction.simps [of a b])
  next
    case nq: False
    show ?thesis
    proof (cases "a - a div b * b = 0")
      case True
      then show ?thesis using 1(2) nq by (simp add: continuedFraction.simps [of a b])
    next
      case False
      from "1.IH" [OF 1(2) refl refl nq refl False False]
      obtain cx dx where
        "continuedFraction b (a - a div b * b) (f + a div b * e) e m = Some (cx, dx)"
        by blast
      then show ?thesis using 1(2) nq False by (simp add: continuedFraction.simps [of a b])
    qed
  qed
qed

lemma u64_rem_eq: "a - a div b * b = (a mod b :: u64)"
  by (simp add: minus_div_mult_eq_mod)

text \<open>Exact conversions and quotients, for the \<open>eps\<close> of \<open>NearestFraction\<close>.\<close>

lemma f64_round_int_exact:
  assumes "0 < n" "n \<le> 2 ^ 53"
  shows "f64_round False (of_int n) = Fin (of_int n)"
proof (cases "n < 2 ^ 53")
  case True
  from f64_round_exact [OF assms(1) True, of 0 False] show ?thesis by simp
next
  case False
  then have n: "n = 2 ^ 53" using assms(2) by simp
  have "(of_int n :: rat) = of_int (2 ^ 52) * 2 powi 1" by (simp add: n)
  moreover have "f64_round False (of_int (2 ^ 52) * 2 powi 1) = Fin (of_int (2 ^ 52) * 2 powi 1)"
    using f64_round_exact [of "2 ^ 52" 1 False] by simp
  ultimately show ?thesis by simp
qed

lemma f64_of_u64_exact:
  assumes "uint w \<le> 2 ^ 53"
  shows "f64_of_u64 w = Fin (of_int (uint w))"
proof (cases "w = 0")
  case True
  then show ?thesis by (simp add: f64_of_u64_def f64_round_zero f64_zero_def)
next
  case False
  then have "uint w \<noteq> 0" by (simp add: uint_0_iff)
  moreover have "0 \<le> uint w" by (rule uint_nonnegative)
  ultimately have "0 < uint w" by linarith
  then have "f64_round False (of_int (uint w)) = Fin (of_int (uint w))"
    using assms by (rule f64_round_int_exact)
  then show ?thesis by (simp only: f64_of_u64_def)
qed

lemma f64_div_pos:
  assumes "0 < x" "0 < y"
  shows "f64_div (Fin x) (Fin y) = f64_round False (x / y)"
  using assms by (simp add: f64_div_def f64_sign_def f64_fin_def)

lemma f64_sub_self:
  assumes "x \<noteq> 0"
  shows "f64_sub (Fin x) (Fin x) = Fin 0"
  using assms by (simp add: f64_sub_def f64_add_def f64_neg_def f64_fin_def)

lemma continuedFraction_exact_division:
  assumes "n \<noteq> 0" "1 \<le> m" "unat k * unat n < 2 ^ 64"
  shows "continuedFraction (k * n) n 0 1 m = Some (k, 1)"
proof -
  have d: "k * n div n = k"
  proof -
    have "unat (k * n) = unat k * unat n"
      using assms(3) unat_mult_lem [of k n] by simp
    then have "unat (k * n div n) = unat k"
      using assms(1) by (simp add: unat_div unat_gt_0)
    then show ?thesis by (rule word_unat_eq_iff [THEN iffD2])
  qed
  have "\<not> (1 :: u64) > m" using assms(2) unfolding word_le_nat_alt word_less_nat_alt by simp
  then show ?thesis
    using assms(1) by (simp add: continuedFraction.simps [of "k * n" n] d)
qed

lemma uint_pos: "w \<noteq> 0 \<Longrightarrow> 0 < uint w"
proof -
  assume "w \<noteq> 0"
  then have "uint w \<noteq> 0" by (simp add: uint_0_iff)
  moreover have "0 \<le> uint w" by (rule uint_nonnegative)
  ultimately show ?thesis by linarith
qed

lemma eps_exact_division:
  assumes "k \<noteq> 0" "n \<noteq> 0" "uint k * uint n \<le> 2 ^ 53"
  shows "f64_sub (f64_div (f64_of_u64 (k * n)) (f64_of_u64 n))
                 (f64_div (f64_of_u64 k) (f64_of_u64 1)) = Fin 0"
proof -
  have Kp: "0 < uint k" and Np: "0 < uint n" using assms(1,2) by (simp_all add: uint_pos)
  have kn: "uint (k * n) = uint k * uint n"
  proof -
    have "uint k * uint n < 2 ^ LENGTH(64)" using assms(3) by simp
    then show ?thesis by (simp only: uint_mult_lem)
  qed
  have "uint k * 1 \<le> uint k * uint n" using Kp Np by (intro mult_left_mono) simp_all
  then have k53: "uint k \<le> 2 ^ 53" using assms(3) by simp
  have "1 * uint n \<le> uint k * uint n" using Kp Np by (intro mult_right_mono) simp_all
  then have n53: "uint n \<le> 2 ^ 53" using assms(3) by simp
  define K :: rat where "K = of_int (uint k)"
  define N :: rat where "N = of_int (uint n)"
  have K: "0 < K" using Kp by (simp only: K_def of_int_0_less_iff)
  have N: "0 < N" using Np by (simp only: N_def of_int_0_less_iff)
  have KN: "(of_int (uint (k * n)) :: rat) = K * N"
    by (simp only: K_def N_def kn of_int_mult)
  have "uint (k * n) \<le> 2 ^ 53" using assms(3) by (simp only: kn)
  then have c1: "f64_of_u64 (k * n) = Fin (K * N)"
    using f64_of_u64_exact [of "k * n"] by (simp only: KN)
  have c2: "f64_of_u64 n = Fin N" unfolding N_def using n53 by (rule f64_of_u64_exact)
  have c3: "f64_of_u64 k = Fin K" unfolding K_def using k53 by (rule f64_of_u64_exact)
  have c4: "f64_of_u64 1 = Fin 1" using f64_of_u64_exact [of 1] by simp
  have rk: "f64_round False K = Fin K"
    unfolding K_def using Kp k53 by (rule f64_round_int_exact)
  have d1: "K * N / N = K" using N by simp
  have q1: "f64_div (f64_of_u64 (k * n)) (f64_of_u64 n) = Fin K"
    using f64_div_pos [of "K * N" N] K N rk by (simp only: c1 c2 mult_pos_pos d1)
  have d2: "K / 1 = K" by simp
  have q2: "f64_div (f64_of_u64 k) (f64_of_u64 1) = Fin K"
    using f64_div_pos [of K 1] K rk by (simp only: c3 c4 zero_less_one d2)
  have "K \<noteq> 0" using K by simp
  then show ?thesis
    unfolding q1 q2 by (rule f64_sub_self)
qed

lemma unat_prod_le_uint:
  assumes "unat k * unat n \<le> c"
  shows "uint k * uint n \<le> int c"
proof -
  have "int (unat k * unat n) \<le> int c" using assms by (simp only: of_nat_le_iff)
  then show ?thesis by simp
qed

section \<open>The ranges of the clock, the PLL frequency and the feedback ratio\<close>














lemma near_NaN: "\<not> near NaN b eps"
  by (simp add: near_def f64_sub_def f64_add_def f64_abs_def f64_sign_def f64_le_def)




section \<open>Output frequencies too low for the output divider\<close>
















section \<open>Convergents are best approximations\<close>

text \<open>
  At the point where the descent stops, with the denominators \<open>e\<close> and \<open>f\<close> and the
  numerators \<open>g\<close> and \<open>h\<close> of the last two convergents, every fraction \<open>c' / d'\<close> with
  \<open>d'\<close> up to the bound is a combination of the two, and \<open>\<bar>d' * A - c' * B\<bar>\<close> is at
  least the current divisor \<open>b\<close>, which is \<open>\<bar>e * A - g * B\<bar>\<close>.
\<close>

lemma best_core:
  fixes A B a b g h e f c' d' m :: int
  assumes A: "A = g * a + h * b" and B: "B = e * a + f * b"
    and D: "g * f - h * e = 1 \<or> g * f - h * e = - 1"
    and b: "0 < b" "b < a" and e: "1 \<le> e" and f: "0 \<le> f"
    and d: "1 \<le> d'" "d' \<le> m" and stop: "m < f + (a div b) * e"
  shows "\<bar>e * A - g * B\<bar> = b" and "b \<le> \<bar>d' * A - c' * B\<bar>"
proof -
  define D where "D = g * f - h * e"
  have D1: "D = 1 \<or> D = - 1" using D by (simp add: D_def)
  have D2: "D * D = 1" using D1 by auto
  have "e * A - g * B = - D * b" unfolding A B D_def by (simp add: algebra_simps)
  then show "\<bar>e * A - g * B\<bar> = b" using D1 b by auto
  define u v where "u = D * (c' * f - d' * h)" and "v = D * (d' * g - c' * e)"
  have "u * e + v * f = (D * D) * d'" unfolding u_def v_def
    by (simp add: algebra_simps D_def)
  then have d_eq: "u * e + v * f = d'" by (simp add: D2)
  have "u * g + v * h = (D * D) * c'" unfolding u_def v_def
    by (simp add: algebra_simps D_def)
  then have c_eq: "u * g + v * h = c'" by (simp add: D2)
  have "(u * e + v * f) * A - (u * g + v * h) * B = D * (v * a - u * b)"
    unfolding A B D_def by (simp add: algebra_simps)
  then have key: "d' * A - c' * B = D * (v * a - u * b)" by (simp only: d_eq c_eq)
  have ab: "\<bar>d' * A - c' * B\<bar> = \<bar>v * a - u * b\<bar>"
    unfolding key using D1 by auto
  define t where "t = a div b"
  have "a = b * t + a mod b" by (simp add: t_def)
  moreover have "0 \<le> a mod b" using b by simp
  ultimately have tb: "t * b \<le> a" by (simp add: algebra_simps)
  have a0: "0 \<le> a" using b by simp
  show "b \<le> \<bar>d' * A - c' * B\<bar>"
  proof (cases "v \<le> 0")
    case True
    have "v * f \<le> 0" using True f by (rule mult_nonpos_nonneg)
    then have ue: "1 \<le> u * e" using d_eq d by linarith
    have "1 \<le> u"
    proof (rule ccontr)
      assume "\<not> 1 \<le> u"
      then have "u \<le> 0" by simp
      moreover have "0 \<le> e" using e by simp
      ultimately have "u * e \<le> 0" by (rule mult_nonpos_nonneg)
      then show False using ue by simp
    qed
    then have "1 * b \<le> u * b" using b by (intro mult_right_mono) simp_all
    moreover have "v * a \<le> 0" using True a0 by (rule mult_nonpos_nonneg)
    ultimately show ?thesis unfolding ab by linarith
  next
    case False
    then have v1: "1 \<le> v" by simp
    have "1 * f \<le> v * f" using v1 f by (rule mult_right_mono)
    then have "u * e < t * e" using d_eq d stop unfolding t_def by linarith
    then have "u < t" using e by (simp add: mult_less_cancel_right)
    then have "u \<le> t - 1" by simp
    then have "u * b \<le> (t - 1) * b" using b by (intro mult_right_mono) simp_all
    also have "\<dots> = t * b - b" by (simp add: algebra_simps)
    finally have ub: "u * b \<le> a - b" using tb by linarith
    have "1 * a \<le> v * a" using v1 a0 by (rule mult_right_mono)
    then show ?thesis unfolding ab using ub by linarith
  qed
qed

lemma cf_conv_best:
  fixes A B :: nat and c' :: int and d' :: nat
  assumes "cf_conv a b g h e f m = (P, Q)"
    and "0 < b" "b < a"
    and "int A = int g * int a + int h * int b"
    and "int B = int e * int a + int f * int b"
    and "int g * int f - int h * int e = 1 \<or> int g * int f - int h * int e = - 1"
    and "1 \<le> e" "e \<le> m" "1 \<le> d'" "d' \<le> m"
  shows "1 \<le> Q \<and> Q \<le> m \<and>
         \<bar>int Q * int A - int P * int B\<bar> \<le> \<bar>int d' * int A - c' * int B\<bar>"
  using assms
proof (induction a b g h e f m rule: cf_conv.induct)
  case (1 a b g h e f m)
  define t where "t = a div b"
  have t1: "1 \<le> t" using 1(3,4) by (simp add: t_def div_greater_zero_iff Suc_le_eq)
  have it: "int t = int a div int b" by (simp add: t_def zdiv_int)
  have am: "int (a mod b) = int a - int t * int b"
  proof -
    have "a = t * b + a mod b" by (simp add: t_def)
    then have "int a = int t * int b + int (a mod b)"
      by (metis of_nat_add of_nat_mult)
    then show ?thesis by simp
  qed
  show ?case
  proof (cases "m < f + t * e")
    case True
    then have PQ: "P = g" "Q = e"
      using 1(2,3) by (simp_all add: cf_conv.simps [of a b] t_def Let_def)
    have stop: "int m < int f + (int a div int b) * int e"
      using True unfolding it [symmetric] by (metis of_nat_add of_nat_less_iff of_nat_mult)
    have ib: "0 < int b" "int b < int a" using 1(3,4) by simp_all
    have ie: "1 \<le> int e" "0 \<le> int f" using 1(8) by simp_all
    have idd: "1 \<le> int d'" "int d' \<le> int m" using 1(10,11) by simp_all
    note bc1 = best_core(1) [OF 1(5) 1(6) 1(7) ib ie idd stop]
    note bc2 = best_core(2) [OF 1(5) 1(6) 1(7) ib ie idd stop, of c']
    show ?thesis using bc1 bc2 1(8,9) by (simp add: PQ)
  next
    case q: False
    show ?thesis
    proof (cases "a mod b = 0")
      case True
      then have PQ: "P = h + t * g" "Q = f + t * e"
        using 1(2,3) q by (simp_all add: cf_conv.simps [of a b] t_def Let_def)
      have ab: "int a = int t * int b" using am True by simp
      have "int Q * int A - int P * int B = 0"
        unfolding PQ 1(5) 1(6) ab by (simp add: algebra_simps)
      moreover have "1 * 1 \<le> t * e" using t1 1(8) by (rule mult_le_mono)
      then have "1 \<le> f + t * e" by linarith
      ultimately show ?thesis using q by (simp add: PQ)
    next
      case False
      then have pos: "0 < a mod b" by simp
      have lt: "a mod b < b" using 1(3) by simp
      have rec: "cf_conv b (a mod b) (h + t * g) g (f + t * e) e m = (P, Q)"
        using 1(2,3) q False by (simp add: cf_conv.simps [of a b] t_def Let_def)
      have A': "int A = int (h + t * g) * int b + int g * int (a mod b)"
        unfolding am 1(5) by (simp add: algebra_simps)
      have B': "int B = int (f + t * e) * int b + int e * int (a mod b)"
        unfolding am 1(6) by (simp add: algebra_simps)
      have "int (h + t * g) * int e - int g * int (f + t * e) =
            - (int g * int f - int h * int e)" by (simp add: algebra_simps)
      then have D': "int (h + t * g) * int e - int g * int (f + t * e) = 1 \<or>
            int (h + t * g) * int e - int g * int (f + t * e) = - 1"
        using 1(7) by auto
      have "1 * 1 \<le> t * e" using t1 1(8) by (rule mult_le_mono)
      then have q1: "1 \<le> f + t * e" by linarith
      have qm: "f + t * e \<le> m" using q by simp
      have bne: "b \<noteq> 0" using 1(3) by simp
      show ?thesis
        by (rule "1.IH" [OF bne t_def refl refl q False rec pos lt A' B' D' q1 qm 1(10) 1(11)])
    qed
  qed
qed

lemma cf_conv_cf_nat:
  "0 < b \<Longrightarrow>
   cf_conv a b g h e f m =
     (g * fst (cf_nat a b e f m) + h * snd (cf_nat a b e f m),
      e * fst (cf_nat a b e f m) + f * snd (cf_nat a b e f m))"
proof (induction a b g h e f m rule: cf_conv.induct)
  case (1 a b g h e f m)
  define t where "t = a div b"
  show ?case
  proof (cases "m < f + t * e")
    case True
    then show ?thesis using 1(2)
      by (simp add: cf_conv.simps [of a b] cf_nat.simps [of a b] t_def Let_def)
  next
    case q: False
    show ?thesis
    proof (cases "a mod b = 0")
      case True
      then show ?thesis using 1(2) q
        by (simp add: cf_conv.simps [of a b] cf_nat.simps [of a b] t_def Let_def algebra_simps)
    next
      case False
      then have pos: "0 < a mod b" by simp
      have bne: "b \<noteq> 0" using 1(2) by simp
      note IH = "1.IH" [OF bne t_def refl refl q False pos]
      obtain cx dx where r: "cf_nat b (a mod b) (f + t * e) e m = (cx, dx)"
        by (cases "cf_nat b (a mod b) (f + t * e) e m")
      have c: "cf_conv a b g h e f m = cf_conv b (a mod b) (h + t * g) g (f + t * e) e m"
        using 1(2) q False by (simp add: cf_conv.simps [of a b] t_def Let_def)
      have n: "cf_nat a b e f m = (t * cx + dx, cx)"
        using 1(2) q False r by (simp add: cf_nat.simps [of a b] t_def Let_def)
      show ?thesis unfolding c n IH r by (simp add: algebra_simps)
    qed
  qed
qed

lemma cf_conv_top: "0 < b \<Longrightarrow> cf_conv a b 1 0 0 1 m = cf_nat a b 0 1 m"
  by (simp add: cf_conv_cf_nat)

lemma cf_conv_top_unfold:
  assumes "0 < b" "1 \<le> m"
  shows "cf_nat a b 0 1 m =
         (if a mod b = 0 then (a div b, 1) else cf_conv b (a mod b) (a div b) 1 1 0 m)"
proof -
  have "cf_conv a b 1 0 0 1 m =
         (if a mod b = 0 then (a div b, 1) else cf_conv b (a mod b) (a div b) 1 1 0 m)"
    using assms by (simp add: cf_conv.simps [of a b] Let_def)
  then show ?thesis unfolding cf_conv_top [OF assms(1)] .
qed

lemma cf_nat_top_best:
  fixes c' :: int
  assumes b: "0 < b" and m: "1 \<le> m" and r: "cf_nat a b 0 1 m = (P, Q)"
    and d: "1 \<le> d'" "d' \<le> m"
  shows "1 \<le> Q \<and> Q \<le> m \<and>
         \<bar>int Q * int a - int P * int b\<bar> \<le> \<bar>int d' * int a - c' * int b\<bar>"
proof (cases "a mod b = 0")
  case True
  then have PQ: "P = a div b" "Q = 1"
    using r cf_conv_top_unfold [OF b m, of a] by simp_all
  have "a = a div b * b" using True by (simp add: mod_eq_0_iff_dvd)
  then have "int a = int (a div b) * int b" by (metis of_nat_mult)
  then have "int Q * int a - int P * int b = 0" by (simp add: PQ)
  then show ?thesis using m by (simp add: PQ)
next
  case False
  then have pos: "0 < a mod b" by simp
  have lt: "a mod b < b" using b by simp
  have rec: "cf_conv b (a mod b) (a div b) 1 1 0 m = (P, Q)"
    using r False cf_conv_top_unfold [OF b m, of a] by simp
  have "a = a div b * b + a mod b" by simp
  then have "int a = int (a div b) * int b + int (a mod b)"
    by (metis of_nat_add of_nat_mult)
  then have A: "int a = int (a div b) * int b + int 1 * int (a mod b)" by simp
  have B: "int b = int 1 * int b + int 0 * int (a mod b)" by simp
  have D: "int (a div b) * int 0 - int 1 * int 1 = 1 \<or>
           int (a div b) * int 0 - int 1 * int 1 = - 1" by simp
  show ?thesis
    by (rule cf_conv_best [OF rec pos lt A B D _ m d]) simp
qed

lemma cf_conv_snd_ge: "0 < b \<Longrightarrow> b < a \<Longrightarrow> e \<le> snd (cf_conv a b g h e f m)"
proof (induction a b g h e f m rule: cf_conv.induct)
  case (1 a b g h e f m)
  define t where "t = a div b"
  have t1: "1 \<le> t" using 1(2,3) by (simp add: t_def div_greater_zero_iff Suc_le_eq)
  obtain k where "t = Suc k" using t1 by (cases t) simp_all
  then have eq: "e \<le> f + t * e" by simp
  show ?case
  proof (cases "m < f + t * e")
    case True
    then show ?thesis using 1(2) by (simp add: cf_conv.simps [of a b] t_def Let_def)
  next
    case q: False
    show ?thesis
    proof (cases "a mod b = 0")
      case True
      then show ?thesis using 1(2) q eq by (simp add: cf_conv.simps [of a b] t_def Let_def)
    next
      case False
      then have pos: "0 < a mod b" by simp
      have lt: "a mod b < b" using 1(2) by simp
      have bne: "b \<noteq> 0" using 1(2) by simp
      note IH = "1.IH" [OF bne t_def refl refl q False pos lt]
      have c: "cf_conv a b g h e f m = cf_conv b (a mod b) (h + t * g) g (f + t * e) e m"
        using 1(2) q False by (simp add: cf_conv.simps [of a b] t_def Let_def)
      show ?thesis unfolding c using IH eq by (rule_tac order_trans)
    qed
  qed
qed

lemma cf_conv_snd_mono:
  "0 < b \<Longrightarrow> b < a \<Longrightarrow> m \<le> m' \<Longrightarrow>
   snd (cf_conv a b g h e f m) \<le> snd (cf_conv a b g h e f m')"
proof (induction a b g h e f m rule: cf_conv.induct)
  case (1 a b g h e f m)
  define t where "t = a div b"
  show ?case
  proof (cases "m < f + t * e")
    case True
    then have "snd (cf_conv a b g h e f m) = e"
      using 1(2) by (simp add: cf_conv.simps [of a b] t_def Let_def)
    then show ?thesis using cf_conv_snd_ge [OF 1(2,3), of e g h f m'] by simp
  next
    case q: False
    then have q': "\<not> m' < f + t * e" using 1(4) by simp
    show ?thesis
    proof (cases "a mod b = 0")
      case True
      then show ?thesis using 1(2) q q'
        by (simp add: cf_conv.simps [of a b] t_def Let_def)
    next
      case False
      then have pos: "0 < a mod b" by simp
      have lt: "a mod b < b" using 1(2) by simp
      have bne: "b \<noteq> 0" using 1(2) by simp
      note IH = "1.IH" [OF bne t_def refl refl q False pos lt 1(4)]
      have c: "cf_conv a b g h e f m = cf_conv b (a mod b) (h + t * g) g (f + t * e) e m"
        using 1(2) q False by (simp add: cf_conv.simps [of a b] t_def Let_def)
      have c': "cf_conv a b g h e f m' = cf_conv b (a mod b) (h + t * g) g (f + t * e) e m'"
        using 1(2) q' False by (simp add: cf_conv.simps [of a b] t_def Let_def)
      show ?thesis unfolding c c' by (rule IH)
    qed
  qed
qed

lemma cf_nat_top_snd_mono:
  assumes b: "0 < b" and m: "1 \<le> m" "m \<le> m'"
  shows "snd (cf_nat a b 0 1 m) \<le> snd (cf_nat a b 0 1 m')"
proof (cases "a mod b = 0")
  case True
  then show ?thesis
    using cf_conv_top_unfold [OF b m(1), of a] cf_conv_top_unfold [OF b, of m' a] m by simp
next
  case False
  then have pos: "0 < a mod b" by simp
  have lt: "a mod b < b" using b by simp
  show ?thesis
    using cf_conv_top_unfold [OF b m(1), of a] cf_conv_top_unfold [OF b, of m' a] m False
      cf_conv_snd_mono [OF pos lt m(2)] by simp
qed

lemma frac_error_eq:
  assumes "0 < b" "0 < d"
  shows "frac_error a b c d =
         of_int \<bar>int d * int a - c * int b\<bar> / (of_nat b * of_nat d)"
proof -
  have b: "(of_nat b :: rat) \<noteq> 0" and d: "(of_nat d :: rat) \<noteq> 0" using assms by simp_all
  have "(of_nat a / of_nat b - of_int c / of_nat d :: rat) =
        (of_nat a * of_nat d - of_int c * of_nat b) / (of_nat b * of_nat d)"
    by (rule diff_frac_eq [OF b d])
  also have "of_nat a * of_nat d - of_int c * of_nat b =
             (of_int (int d * int a - c * int b) :: rat)" by simp
  finally have "frac_error a b c d =
      \<bar>of_int (int d * int a - c * int b) / (of_nat b * of_nat d) :: rat\<bar>"
    by (simp only: frac_error_def)
  also have "\<dots> = \<bar>of_int (int d * int a - c * int b)\<bar> / \<bar>of_nat b * of_nat d :: rat\<bar>"
    by (rule abs_divide)
  also have "\<bar>of_nat b * of_nat d :: rat\<bar> = of_nat b * of_nat d" by simp
  also have "\<bar>of_int (int d * int a - c * int b) :: rat\<bar> =
             of_int \<bar>int d * int a - c * int b\<bar>" by simp
  finally show ?thesis .
qed

lemma frac_error_le:
  assumes "0 < b" "0 < d'" "d' \<le> d"
    and "\<bar>int d * int a - c * int b\<bar> \<le> \<bar>int d' * int a - c' * int b\<bar>"
  shows "frac_error a b c d \<le> frac_error a b c' d'"
proof -
  have d: "0 < d" using assms(2,3) by simp
  have 1: "(0::rat) \<le> of_int \<bar>int d' * int a - c' * int b\<bar>" by simp
  have 2: "(of_int \<bar>int d * int a - c * int b\<bar> :: rat) \<le>
           of_int \<bar>int d' * int a - c' * int b\<bar>"
    using assms(4) by (simp only: of_int_le_iff)
  have 3: "(0::rat) < of_nat b * of_nat d'" using assms(1,2) by simp
  have "b * d' \<le> b * d" using assms(3) by simp
  then have 4: "(of_nat b * of_nat d' :: rat) \<le> of_nat b * of_nat d"
    by (metis of_nat_le_iff of_nat_mult)
  show ?thesis
    unfolding frac_error_eq [OF assms(1) d] frac_error_eq [OF assms(1,2)]
    by (rule frac_le [OF 1 2 3 4])
qed

lemma NearestFraction_cf_nat:
  assumes "b \<noteq> 0"
  shows "\<exists>c d eps. NearestFraction a b m = Some (c, d, eps) \<and>
           unat c = fst (cf_nat (unat a) (unat b) 0 1 (unat m)) \<and>
           unat d = snd (cf_nat (unat a) (unat b) 0 1 (unat m))"
proof -
  define P where "P = fst (cf_nat (unat a) (unat b) 0 1 (unat m))"
  define Q where "Q = snd (cf_nat (unat a) (unat b) 0 1 (unat m))"
  have B: "0 < unat b" using assms by (simp add: unat_gt_0)
  have "unat (0::u64) * unat a + unat (1::u64) * unat b < 2 ^ 64"
    using unsigned_less [of b, where 'a = nat] by simp
  from continuedFraction_cf_nat [OF assms this, of m]
  have cf: "continuedFraction a b 0 1 m = Some (of_nat P, of_nat Q)"
    by (simp add: P_def Q_def)
  from cf_nat_bounds [OF B, of "unat a" 0 1 "unat m"]
  have "P \<le> max (unat a) 1" "Q \<le> unat b" by (simp_all add: P_def Q_def)
  moreover have "unat a < 2 ^ 64" "unat b < 2 ^ 64"
    using unsigned_less [of a, where 'a = nat] unsigned_less [of b, where 'a = nat] by simp_all
  ultimately have "P < 2 ^ LENGTH(64)" "Q < 2 ^ LENGTH(64)" by simp_all
  then have "unat (of_nat P :: u64) = P" "unat (of_nat Q :: u64) = Q"
    by (simp_all only: unat_of_nat mod_less)
  then show ?thesis
    unfolding NearestFraction_def cf P_def [symmetric] Q_def [symmetric] by simp
qed

section \<open>Properties of the reducers\<close>

text \<open>
  C1. For every scale and all 32-bit words with \<open>hi2 \<in> {hi1, hi1 + 1}\<close>,
  \<open>ReduceObservation\<close> returns \<open>hi1 * scale + lo1\<close> when \<open>hi1 = hi2\<close>; otherwise
  \<open>hi2 * scale + lo1\<close> if \<open>lo1 < lo2\<close> and \<open>hi1 * scale + lo1\<close> if \<open>lo1 \<ge> lo2\<close>
  (in \<open>uint64\<close> arithmetic). The three vectors of the test table are instances.
\<close>

theorem ReduceObservation_decision_table:
  "(hi2 \<in> {hi1, hi1 + 1} \<longrightarrow>
      (hi1 = hi2 \<longrightarrow> ReduceObservation scale hi1 lo1 hi2 lo2 = ucast hi1 * scale + ucast lo1) \<and>
      (hi1 \<noteq> hi2 \<and> lo1 < lo2 \<longrightarrow>
         ReduceObservation scale hi1 lo1 hi2 lo2 = ucast hi2 * scale + ucast lo1) \<and>
      (hi1 \<noteq> hi2 \<and> lo1 \<ge> lo2 \<longrightarrow>
         ReduceObservation scale hi1 lo1 hi2 lo2 = ucast hi1 * scale + ucast lo1)) \<and>
   ReduceObservation 0x10000 100 40 100 45 = 100 * 0x10000 + 40 \<and>
   ReduceObservation 0x10000 100 0xfff5 101 45 = 100 * 0x10000 + 0xfff5 \<and>
   ReduceObservation 0x10000 100 40 101 45 = 101 * 0x10000 + 40"
  by (auto simp add: ReduceObservation_def)

theorem ReduceObservation_decision_table_witness:
  "(101 :: u32) \<in> {100, 100 + 1} \<and> (100 :: u32) \<noteq> 101 \<and> (40 :: u32) < 45 \<and>
   ReduceObservation 0x10000 100 40 101 45 = 0x650028"
  using ReduceObservation_decision_table [of 101 100 "0x10000" 40 45]
  by simp

text \<open>
  C10, as stated, would make the reducer of package \<open>wspr\<close> equal to the one of package
  \<open>support\<close> on every double read with \<open>th2 \<in> {th1, th1 + 1}\<close>. It is not: on an observed
  increment the local function pairs the second high word with the second low word.
\<close>

theorem ReduceObservation_wspr_differs:
  "(101 :: u32) \<in> {100, 100 + 1} \<and>
   ReduceObservation_wspr 0x10000 100 40 101 45 \<noteq> ReduceObservation 0x10000 100 40 101 45"
  by (simp add: ReduceObservation_wspr_def ReduceObservation_def)

text \<open>
  C10, amended. \<open>MicroTime\<close> reduces its reads with the local rule: the local
  \<open>ReduceObservation\<close> returns \<open>th1 * scale + tl1\<close>, the value of
  \<open>support.ReduceObservation\<close>, when \<open>th1 = th2\<close>, and \<open>th2 * scale + tl2\<close> when the high
  words differ.
\<close>

theorem ReduceObservation_wspr_rule:
  "MicroTime th1 tl1 th2 tl2 = ReduceObservation_wspr (2 ^ 32) th1 tl1 th2 tl2 \<and>
   ReduceObservation_wspr scale th1 tl1 th2 tl2 =
     (if th1 = th2 then ReduceObservation scale th1 tl1 th2 tl2
      else ucast th2 * scale + ucast tl2)"
  by (simp add: MicroTime_def ReduceObservation_wspr_def ReduceObservation_def)

section \<open>Properties of the rational approximator\<close>

text \<open>
  C3. For every \<open>a\<close>, every \<open>b\<close> of at least 1 and all accumulators, \<open>continuedFraction\<close>
  returns (the recursion ends), and with \<open>term = a div b\<close> and \<open>denom = f + term * e\<close>, in
  \<open>uint64\<close> arithmetic: it returns \<open>(1, 0)\<close> if \<open>denom\<close> exceeds the bound; else
  \<open>(term, 1)\<close> if \<open>a mod b\<close> is zero; else \<open>(term * cx + dx, cx)\<close> for the result
  \<open>(cx, dx)\<close> of the call on \<open>(b, a mod b, denom, e)\<close>. \<open>NearestFraction\<close> returns the result
  of the call with \<open>e = 0\<close> and \<open>f = 1\<close>.
\<close>

theorem continuedFraction_recursion:
  "b \<noteq> 0 \<longrightarrow>
     (\<exists>c d. continuedFraction a b e f m = Some (c, d)) \<and>
     (let term = a div b; denom = f + term * e
      in (denom > m \<longrightarrow> continuedFraction a b e f m = Some (1, 0)) \<and>
         (\<not> denom > m \<and> a mod b = 0 \<longrightarrow> continuedFraction a b e f m = Some (term, 1)) \<and>
         (\<not> denom > m \<and> a mod b \<noteq> 0 \<longrightarrow>
            (\<exists>cx dx. continuedFraction b (a mod b) denom e m = Some (cx, dx) \<and>
                     continuedFraction a b e f m = Some (term * cx + dx, cx)))) \<and>
     ((\<exists>eps. NearestFraction a b m = Some (c, d, eps)) =
        (continuedFraction a b 0 1 m = Some (c, d)))"
proof (rule impI)
  assume b: "b \<noteq> 0"
  have tot: "\<exists>c d. continuedFraction a b e f m = Some (c, d)"
    using b by (rule continuedFraction_total)
  have s1: "f + a div b * e > m \<longrightarrow> continuedFraction a b e f m = Some (1, 0)"
    using b by (simp add: continuedFraction.simps [of a b])
  have s2: "\<not> f + a div b * e > m \<and> a mod b = 0 \<longrightarrow>
            continuedFraction a b e f m = Some (a div b, 1)"
    using b by (simp add: continuedFraction.simps [of a b] u64_rem_eq)
  have s3: "\<not> f + a div b * e > m \<and> a mod b \<noteq> 0 \<longrightarrow>
            (\<exists>cx dx. continuedFraction b (a mod b) (f + a div b * e) e m = Some (cx, dx) \<and>
                     continuedFraction a b e f m = Some (a div b * cx + dx, cx))"
  proof (rule impI)
    assume c: "\<not> f + a div b * e > m \<and> a mod b \<noteq> 0"
    then obtain cx dx where
      r: "continuedFraction b (a mod b) (f + a div b * e) e m = Some (cx, dx)"
      using continuedFraction_total [of "a mod b" b "f + a div b * e" e m] by blast
    then have "continuedFraction a b e f m = Some (a div b * cx + dx, cx)"
      using b c by (simp add: continuedFraction.simps [of a b] u64_rem_eq)
    with r show "\<exists>cx dx. continuedFraction b (a mod b) (f + a div b * e) e m = Some (cx, dx) \<and>
                     continuedFraction a b e f m = Some (a div b * cx + dx, cx)"
      by blast
  qed
  have nf: "(\<exists>eps. NearestFraction a b m = Some (c, d, eps)) =
        (continuedFraction a b 0 1 m = Some (c, d))"
    by (auto simp add: NearestFraction_def split: option.splits)
  show "(\<exists>c d. continuedFraction a b e f m = Some (c, d)) \<and>
     (let term = a div b; denom = f + term * e
      in (denom > m \<longrightarrow> continuedFraction a b e f m = Some (1, 0)) \<and>
         (\<not> denom > m \<and> a mod b = 0 \<longrightarrow> continuedFraction a b e f m = Some (term, 1)) \<and>
         (\<not> denom > m \<and> a mod b \<noteq> 0 \<longrightarrow>
            (\<exists>cx dx. continuedFraction b (a mod b) denom e m = Some (cx, dx) \<and>
                     continuedFraction a b e f m = Some (term * cx + dx, cx)))) \<and>
     ((\<exists>eps. NearestFraction a b m = Some (c, d, eps)) =
        (continuedFraction a b 0 1 m = Some (c, d)))"
    unfolding Let_def using tot s1 s2 s3 nf by blast
qed

theorem continuedFraction_recursion_witness:
  "(5 :: u64) \<noteq> 0 \<and> \<not> (1 + 3 div 5 * 0 > (4 :: u64)) \<and> (3 :: u64) mod 5 \<noteq> 0 \<and>
   (\<exists>cx dx. continuedFraction 5 3 1 0 4 = Some (cx, dx) \<and>
            continuedFraction 3 5 0 1 4 = Some (0 * cx + dx, cx))"
  using continuedFraction_recursion [of 5 3 0 1 4] by (simp add: Let_def)

text \<open>
  C4, as stated, has \<open>NearestFraction(k*n, n, m)\<close> return the error \<open>0.0\<close> for all positive
  \<open>k\<close> and \<open>n\<close>. The error is computed in \<open>float64\<close>: with \<open>k = 3\<close> and \<open>n = 2 ^ 53 + 1\<close>
  the two conversions round and the error returned is \<open>2 powi -51\<close>.
\<close>

theorem NearestFraction_exact_division_eps_nonzero:
  "(3 :: u64) \<noteq> 0 \<and> (9007199254740993 :: u64) \<noteq> 0 \<and> (1 :: u64) \<le> 1 \<and>
   unat (3 :: u64) * unat (9007199254740993 :: u64) < 2 ^ 64 \<and>
   NearestFraction (3 * 9007199254740993) 9007199254740993 1 = Some (3, 1, Fin (1 / 2 ^ 51)) \<and>
   Fin (1 / 2 ^ 51) \<noteq> Fin 0"
proof -
  have cf: "continuedFraction 27021597764222979 9007199254740993 0 1 1 = Some (3, 1)"
    by (simp add: continuedFraction.simps)
  have a: "f64_of_u64 27021597764222979 = Fin 27021597764222980"
    by (simp add: f64_of_u64_def f64_round_ev)
  have b: "f64_of_u64 9007199254740993 = Fin 9007199254740992"
    by (simp add: f64_of_u64_def f64_round_ev)
  have q: "f64_div (Fin 27021597764222980) (Fin 9007199254740992) =
           Fin (6755399441055745 / 2251799813685248)"
    by (simp add: f64_ev)
  have c: "f64_div (f64_of_u64 3) (f64_of_u64 1) = Fin 3"
    by (simp add: f64_ev)
  have e: "f64_sub (Fin (6755399441055745 / 2251799813685248)) (Fin 3) = Fin (1 / 2 ^ 51)"
    by (simp add: f64_ev)
  have "NearestFraction 27021597764222979 9007199254740993 1 = Some (3, 1, Fin (1 / 2 ^ 51))"
    by (simp add: NearestFraction_def cf a b q c e)
  then show ?thesis by simp
qed

text \<open>
  C4, amended. For all nonzero \<open>k\<close> and \<open>n\<close> whose product is a \<open>uint64\<close> and every bound of
  at least 1, \<open>NearestFraction(k*n, n, m)\<close> returns the numerator \<open>k\<close> and the denominator
  1; the error returned is \<open>+0.0\<close> when the product is at most \<open>2 ^ 53\<close>. Moreover
  \<open>NearestFraction(0, b, m)\<close> returns \<open>(0, 1)\<close> and \<open>NearestFraction(a, 1, m)\<close> returns
  \<open>(a, 1)\<close>.
\<close>

theorem NearestFraction_exact_division:
  "(k \<noteq> 0 \<and> n \<noteq> 0 \<and> 1 \<le> m \<and> unat k * unat n < 2 ^ 64 \<longrightarrow>
      (\<exists>eps. NearestFraction (k * n) n m = Some (k, 1, eps)) \<and>
      (unat k * unat n \<le> 2 ^ 53 \<longrightarrow> NearestFraction (k * n) n m = Some (k, 1, Fin 0))) \<and>
   (b \<noteq> 0 \<and> 1 \<le> m \<longrightarrow> (\<exists>eps. NearestFraction 0 b m = Some (0, 1, eps))) \<and>
   (1 \<le> m \<longrightarrow> (\<exists>eps. NearestFraction a 1 m = Some (a, 1, eps)))"
proof (intro conjI impI)
  assume h: "k \<noteq> 0 \<and> n \<noteq> 0 \<and> 1 \<le> m \<and> unat k * unat n < 2 ^ 64"
  then have cf: "continuedFraction (k * n) n 0 1 m = Some (k, 1)"
    by (intro continuedFraction_exact_division) simp_all
  then show "\<exists>eps. NearestFraction (k * n) n m = Some (k, 1, eps)"
    by (simp add: NearestFraction_def)
  assume "unat k * unat n \<le> 2 ^ 53"
  then have "uint k * uint n \<le> 2 ^ 53" using unat_prod_le_uint [of k n "2 ^ 53"] by simp
  then have "f64_sub (f64_div (f64_of_u64 (k * n)) (f64_of_u64 n))
                 (f64_div (f64_of_u64 k) (f64_of_u64 1)) = Fin 0"
    using h by (intro eps_exact_division) simp_all
  then show "NearestFraction (k * n) n m = Some (k, 1, Fin 0)"
    using cf by (simp add: NearestFraction_def)
next
  assume h: "b \<noteq> 0 \<and> 1 \<le> m"
  then have "continuedFraction (0 * b) b 0 1 m = Some (0, 1)"
    by (intro continuedFraction_exact_division) simp_all
  then show "\<exists>eps. NearestFraction 0 b m = Some (0, 1, eps)"
    by (simp add: NearestFraction_def)
next
  assume h: "1 \<le> m"
  have "unat a * unat (1 :: u64) < 2 ^ 64" using unsigned_less [of a, where ?'a = nat] by simp
  then have "continuedFraction (a * 1) 1 0 1 m = Some (a, 1)"
    using h by (intro continuedFraction_exact_division) simp_all
  then show "\<exists>eps. NearestFraction a 1 m = Some (a, 1, eps)"
    by (simp add: NearestFraction_def)
qed

theorem NearestFraction_exact_division_witness:
  "((3879 :: u64) \<noteq> 0 \<and> (1712 :: u64) \<noteq> 0 \<and> (1 :: u64) \<le> 20 \<and>
    unat (3879 :: u64) * unat (1712 :: u64) \<le> 2 ^ 53 \<and>
    NearestFraction (3879 * 1712) 1712 20 = Some (3879, 1, Fin 0)) \<and>
   ((5 :: u64) \<noteq> 0 \<and> (\<exists>eps. NearestFraction 0 5 20 = Some (0, 1, eps))) \<and>
   (\<exists>eps. NearestFraction 7 1 20 = Some (7, 1, eps))"
  using NearestFraction_exact_division [of 3879 1712 20 5 7]
  by simp

text \<open>
  C2, as stated, has no fraction with a denominator up to \<open>maxDenominator\<close> closer to
  \<open>a / b\<close> than the one returned. \<open>NearestFraction(3, 5, 4)\<close> returns \<open>1 / 2\<close>, at the
  distance \<open>1 / 10\<close> of \<open>3 / 5\<close>; \<open>2 / 3\<close>, of denominator 3, is at the distance \<open>1 / 15\<close>.
\<close>

theorem NearestFraction_3_5_4_not_nearest:
  "(\<exists>eps. NearestFraction 3 5 4 = Some (1, 2, eps)) \<and>
   (1::nat) \<le> 3 \<and> 3 \<le> unat (4::u64) \<and>
   frac_error 3 5 2 3 < frac_error 3 5 1 2"
proof -
  have "continuedFraction 3 5 0 1 4 = Some (1, 2)"
    by (simp add: continuedFraction.simps)
  then have "\<exists>eps. NearestFraction 3 5 4 = Some (1, 2, eps)"
    by (simp add: NearestFraction_def)
  moreover have "frac_error 3 5 2 3 < frac_error 3 5 1 2"
    by (simp add: frac_error_def)
  ultimately show ?thesis by simp
qed

text \<open>
  C2, amended. For \<open>b \<ge> 1\<close> and \<open>maxDenominator \<ge> 1\<close>, \<open>NearestFraction\<close> returns
  \<open>(c, d)\<close> with \<open>1 \<le> d \<le> maxDenominator\<close>; no fraction \<open>c' / d'\<close> with
  \<open>1 \<le> d' \<le> maxDenominator\<close> has \<open>\<bar>d' * a - c' * b\<bar>\<close> below \<open>\<bar>d * a - c * b\<bar>\<close>; no
  fraction with \<open>1 \<le> d' \<le> d\<close> is closer to \<open>a / b\<close> than \<open>c / d\<close>; and the distance of
  \<open>c / d\<close> to \<open>a / b\<close> does not increase when \<open>maxDenominator\<close> increases.
\<close>

theorem NearestFraction_best_approximation:
  "b \<noteq> 0 \<and> m \<noteq> 0 \<longrightarrow>
   (\<exists>c d eps. NearestFraction a b m = Some (c, d, eps) \<and>
      1 \<le> unat d \<and> unat d \<le> unat m \<and>
      (\<forall>c' d'. 1 \<le> d' \<and> d' \<le> unat m \<longrightarrow>
         \<bar>int (unat d) * int (unat a) - int (unat c) * int (unat b)\<bar> \<le>
         \<bar>int d' * int (unat a) - c' * int (unat b)\<bar>) \<and>
      (\<forall>c' d'. 1 \<le> d' \<and> d' \<le> unat d \<longrightarrow>
         frac_error (unat a) (unat b) (int (unat c)) (unat d) \<le>
         frac_error (unat a) (unat b) c' d') \<and>
      (\<forall>m' c2 d2 eps2. m \<le> m' \<and> NearestFraction a b m' = Some (c2, d2, eps2) \<longrightarrow>
         frac_error (unat a) (unat b) (int (unat c2)) (unat d2) \<le>
         frac_error (unat a) (unat b) (int (unat c)) (unat d)))"
proof
  assume bm: "b \<noteq> 0 \<and> m \<noteq> 0"
  then have b: "b \<noteq> 0" and m: "m \<noteq> 0" by simp_all
  have B: "0 < unat b" using b by (simp add: unat_gt_0)
  have M: "1 \<le> unat m" using m by (simp add: unat_gt_0 Suc_le_eq)
  from NearestFraction_cf_nat [OF b, of a m] obtain c d eps where
    nf: "NearestFraction a b m = Some (c, d, eps)"
    and c: "unat c = fst (cf_nat (unat a) (unat b) 0 1 (unat m))"
    and d: "unat d = snd (cf_nat (unat a) (unat b) 0 1 (unat m))" by blast
  have r: "cf_nat (unat a) (unat b) 0 1 (unat m) = (unat c, unat d)" by (simp add: c d)
  note best = cf_nat_top_best [OF B M r]
  have d1: "1 \<le> unat d" and dm: "unat d \<le> unat m"
    using best [of 1 0] M by simp_all
  have sk: "\<bar>int (unat d) * int (unat a) - int (unat c) * int (unat b)\<bar> \<le>
         \<bar>int d' * int (unat a) - c' * int (unat b)\<bar>"
    if "1 \<le> d' \<and> d' \<le> unat m" for c' d'
    using best [of d' c'] that by simp
  have fk: "frac_error (unat a) (unat b) (int (unat c)) (unat d) \<le>
         frac_error (unat a) (unat b) c' d'"
    if h: "1 \<le> d' \<and> d' \<le> unat d" for c' d'
  proof -
    from h dm have "1 \<le> d' \<and> d' \<le> unat m" by simp
    from sk [OF this, of c'] h show ?thesis
      by (intro frac_error_le B) simp_all
  qed
  have mono: "frac_error (unat a) (unat b) (int (unat c2)) (unat d2) \<le>
         frac_error (unat a) (unat b) (int (unat c)) (unat d)"
    if h: "m \<le> m' \<and> NearestFraction a b m' = Some (c2, d2, eps2)" for m' c2 d2 eps2
  proof -
    from h have mm: "unat m \<le> unat m'" by (simp add: word_le_nat_alt)
    then have M': "1 \<le> unat m'" using M by simp
    from NearestFraction_cf_nat [OF b, of a m'] h
    have c2: "unat c2 = fst (cf_nat (unat a) (unat b) 0 1 (unat m'))"
      and d2: "unat d2 = snd (cf_nat (unat a) (unat b) 0 1 (unat m'))" by auto
    have r2: "cf_nat (unat a) (unat b) 0 1 (unat m') = (unat c2, unat d2)"
      by (simp add: c2 d2)
    have dd: "unat d \<le> unat d2"
      unfolding d d2 by (rule cf_nat_top_snd_mono [OF B M mm])
    have dm': "unat d \<le> unat m'" using dm mm by simp
    from cf_nat_top_best [OF B M' r2 d1 dm', of "int (unat c)"]
    have "\<bar>int (unat d2) * int (unat a) - int (unat c2) * int (unat b)\<bar> \<le>
          \<bar>int (unat d) * int (unat a) - int (unat c) * int (unat b)\<bar>" by simp
    then show ?thesis using d1 dd by (intro frac_error_le B) simp_all
  qed
  show "\<exists>c d eps. NearestFraction a b m = Some (c, d, eps) \<and>
      1 \<le> unat d \<and> unat d \<le> unat m \<and>
      (\<forall>c' d'. 1 \<le> d' \<and> d' \<le> unat m \<longrightarrow>
         \<bar>int (unat d) * int (unat a) - int (unat c) * int (unat b)\<bar> \<le>
         \<bar>int d' * int (unat a) - c' * int (unat b)\<bar>) \<and>
      (\<forall>c' d'. 1 \<le> d' \<and> d' \<le> unat d \<longrightarrow>
         frac_error (unat a) (unat b) (int (unat c)) (unat d) \<le>
         frac_error (unat a) (unat b) c' d') \<and>
      (\<forall>m' c2 d2 eps2. m \<le> m' \<and> NearestFraction a b m' = Some (c2, d2, eps2) \<longrightarrow>
         frac_error (unat a) (unat b) (int (unat c2)) (unat d2) \<le>
         frac_error (unat a) (unat b) (int (unat c)) (unat d))"
    using nf d1 dm sk fk mono by blast
qed

theorem NearestFraction_best_approximation_witness:
  "(5::u64) \<noteq> 0 \<and> (4::u64) \<noteq> 0 \<and>
   (\<exists>eps. NearestFraction 3 5 4 = Some (1, 2, eps)) \<and>
   (1::nat) \<le> 3 \<and> 3 \<le> unat (4::u64) \<and>
   \<bar>int 2 * int 3 - int 1 * int 5\<bar> \<le> \<bar>int 3 * int 3 - 2 * int 5\<bar> \<and>
   (1::nat) \<le> 1 \<and> (1::nat) \<le> 2 \<and>
   frac_error 3 5 1 2 \<le> frac_error 3 5 1 1 \<and>
   (4::u64) \<le> 5 \<and> (\<exists>eps. NearestFraction 3 5 5 = Some (3, 5, eps)) \<and>
   frac_error 3 5 3 5 \<le> frac_error 3 5 1 2"
proof -
  have cf4: "continuedFraction 3 5 0 1 4 = Some (1, 2)"
    by (simp add: continuedFraction.simps)
  have cf5: "continuedFraction 3 5 0 1 5 = Some (3, 5)"
    by (simp add: continuedFraction.simps)
  obtain e4 where n4: "NearestFraction 3 5 4 = Some (1, 2, e4)"
    using cf4 by (simp add: NearestFraction_def)
  obtain e5 where n5: "NearestFraction 3 5 5 = Some (3, 5, e5)"
    using cf5 by (simp add: NearestFraction_def)
  have nz: "(5::u64) \<noteq> 0 \<and> (4::u64) \<noteq> 0" by simp
  note T = NearestFraction_best_approximation [of 5 4 3, THEN mp, OF nz]
  from T obtain c d eps where nf: "NearestFraction 3 5 4 = Some (c, d, eps)"
    and sk': "\<forall>c' d'. 1 \<le> d' \<and> d' \<le> unat (4::u64) \<longrightarrow>
         \<bar>int (unat d) * int (unat (3::u64)) - int (unat c) * int (unat (5::u64))\<bar> \<le>
         \<bar>int d' * int (unat (3::u64)) - c' * int (unat (5::u64))\<bar>"
    and fk': "\<forall>c' d'. 1 \<le> d' \<and> d' \<le> unat d \<longrightarrow>
         frac_error (unat (3::u64)) (unat (5::u64)) (int (unat c)) (unat d) \<le>
         frac_error (unat (3::u64)) (unat (5::u64)) c' d'"
    and mono': "\<forall>m' c2 d2 eps2. 4 \<le> m' \<and> NearestFraction 3 5 m' = Some (c2, d2, eps2) \<longrightarrow>
         frac_error (unat (3::u64)) (unat (5::u64)) (int (unat c2)) (unat d2) \<le>
         frac_error (unat (3::u64)) (unat (5::u64)) (int (unat c)) (unat d)"
    by blast
  have cd: "c = 1" "d = 2" using nf n4 by simp_all
  note sk = sk' [rule_format, unfolded cd]
  note fk = fk' [rule_format, unfolded cd]
  note mono = mono' [rule_format, unfolded cd]
  have a: "\<bar>int 2 * int 3 - int 1 * int 5\<bar> \<le> \<bar>int 3 * int 3 - 2 * int 5\<bar>"
    using sk [of 3 2] by simp
  have b: "frac_error 3 5 1 2 \<le> frac_error 3 5 1 1"
    using fk [of 1 1] by simp
  have c: "frac_error 3 5 3 5 \<le> frac_error 3 5 1 2"
    using mono [of 5 3 5 e5] n5 by simp
  show ?thesis using n4 n5 a b c by simp
qed

section \<open>Properties of the synthesizer solver\<close>

text \<open>
  C5. The claim: a configuration is returned only when the relative error of the
  recomputed frequency is at most \<open>1e-12\<close>, and every call beyond that returns an error.
  The code tests \<open>math.Abs(r.eps)/f\<close> one line before it assigns \<open>r.eps\<close>, so the test
  reads zero. At \<open>New(25e6, 0, 99999999)\<close> the configuration returned has \<open>f = 100000000\<close>
  and \<open>eps = -1\<close>; the test of the source, made on this \<open>eps\<close>, exceeds \<open>1e-12\<close>; and no
  input at all makes \<open>New\<close> return the error of that test.
\<close>

theorem New_returns_beyond_relative_error:
  "New cv (Fin 25000000) (Fin 0) (Fin 99999999) =
     Some (Inr \<lparr>cfg_f0 = Fin 25000000, cfg_pll = Fin 800000000, cfg_f = Fin 100000000,
                 cfg_a0 = 32, cfg_b0 = 0, cfg_c0 = 1, cfg_a1 = 8, cfg_b1 = 0, cfg_c1 = 1,
                 cfg_r = 1, cfg_eps = Fin (- 1)\<rparr>) \<and>
   f64_gt (f64_div (f64_abs (Fin (- 1))) (Fin 99999999)) (f64_const (1 / 1000000000000)) \<and>
   (\<forall>cv' f0 pll f. New cv' f0 pll f \<noteq> Some (Inl FrequencyErrorOutOfRange))"
proof -
  have "f64_gt (f64_div (f64_abs (Fin (- 1))) (Fin 99999999)) (f64_const (1 / 1000000000000))"
    by (simp add: f64_ops f64_round_ev)
  then show ?thesis
    by (simp add: New_at_99999999Hz New_never_FrequencyErrorOutOfRange)
qed

text \<open>
  C6. The claim: the stored \<open>f\<close> and \<open>eps\<close> agree with the two divider triples and the
  output divider \<open>r\<close>. The code computes \<open>r.f\<close> without \<open>r.r\<close>. At \<open>New(25e6, 0, 100000)\<close>
  the dividers with \<open>r = 4\<close> give 100000 Hz, the stored \<open>f\<close> is 400000 and \<open>eps\<close> is
  \<open>-300000\<close>.
\<close>

theorem New_stored_frequency_without_r:
  "New cv (Fin 25000000) (Fin 0) (Fin 100000) =
     Some (Inr \<lparr>cfg_f0 = Fin 25000000, cfg_pll = Fin 600000000, cfg_f = Fin 400000,
                 cfg_a0 = 24, cfg_b0 = 0, cfg_c0 = 1, cfg_a1 = 1500, cfg_b1 = 0, cfg_c1 = 1,
                 cfg_r = 4, cfg_eps = Fin (- 300000)\<rparr>) \<and>
   f64_div (f64_mul (Fin 25000000) (divider_ratio 24 0 1))
           (f64_mul (divider_ratio 1500 0 1) (f64_of_u32 4)) = Fin 100000"
proof -
  have "f64_div (f64_mul (Fin 25000000) (divider_ratio 24 0 1))
           (f64_mul (divider_ratio 1500 0 1) (f64_of_u32 4)) = Fin 100000"
    by (simp add: divider_ratio_def f64_ev)
  then show ?thesis by (simp add: New_at_100kHz)
qed





text \<open>
  C8. The claim: both calls bound the denominator by \<open>2 ^ 20 - 1\<close>, so that \<open>c0\<close> and \<open>c1\<close>
  are at most \<open>2 ^ 20 - 1\<close>. The code passes \<open>1<<20\<close> and \<open>continuedFraction\<close> admits a
  denominator equal to its bound. At
  \<open>New(25e6, 600000023.84185791015625, 75000002.98023223876953125)\<close>, two floats, the
  configuration returned has \<open>c0 = 2 ^ 20\<close>.
\<close>

theorem New_c0_exceeds_20_bits:
  "f64_const (9830400390625 / 16384) = Fin (9830400390625 / 16384) \<and>
   f64_const (9830400390625 / 131072) = Fin (9830400390625 / 131072) \<and>
   New cv (Fin 25000000) (Fin (9830400390625 / 16384)) (Fin (9830400390625 / 131072)) =
     Some (Inr \<lparr>cfg_f0 = Fin 25000000, cfg_pll = Fin (9830400390625 / 16384),
                 cfg_f = Fin (9830400390625 / 131072),
                 cfg_a0 = 24, cfg_b0 = 1, cfg_c0 = 1048576, cfg_a1 = 8, cfg_b1 = 0, cfg_c1 = 1,
                 cfg_r = 1, cfg_eps = Fin 0\<rparr>) \<and>
   \<not> (1048576 :: u32) \<le> 2 ^ 20 - 1"
proof -
  have "f64_const (9830400390625 / 16384) = Fin (9830400390625 / 16384)"
    by (simp add: f64_ev)
  moreover have "f64_const (9830400390625 / 131072) = Fin (9830400390625 / 131072)"
    by (simp add: f64_ev)
  moreover have "\<not> (1048576 :: u32) \<le> 2 ^ 20 - 1" by simp
  ultimately show ?thesis by (simp add: New_at_c0_max)
qed



end
